theory Spec2Isabelle
  imports Main "HOL-Library.AList"
begin

section \<open>The crossword constraint solver of src/crossword/generate.py\<close>

subsection \<open>Data model\<close>

text \<open>
  A slot is the \<^verbatim>\<open>Variable(i, j, direction, length)\<close> of the program: two slots are equal
  when all four fields are.
\<close>

datatype direction = ACROSS | DOWN

datatype variable =
  Variable (var_i: nat) (var_j: nat) (var_direction: direction) (var_length: nat)

text \<open>The exceptions the solver can raise: a string or list index out of range, a
  missing dictionary key or set element, and subscripting \<^verbatim>\<open>None\<close>.\<close>

datatype error = IndexError | KeyError | TypeError

text \<open>
  Modelled from the spec: the structural model (class \<^verbatim>\<open>Crossword\<close>, imported by
  generate.py from the module \<^verbatim>\<open>crossword\<close>, whose source is not at hand). It is taken as a
  parameter: the slots in the iteration order of the set \<^verbatim>\<open>crossword.variables\<close>, the
  overlap relation (an absent entry, \<open>None\<close>, means that the pair never overlaps; an entry
  \<open>(i, j)\<close> is the pair of character indices that must agree) and the word list in the
  iteration order of the set \<^verbatim>\<open>crossword.words\<close>.
\<close>

record crossword =
  variables :: "variable list"
  overlaps :: "variable \<times> variable \<Rightarrow> (nat \<times> nat) option"
  words :: "string list"

text \<open>
  Modelled from the spec: the neighbor relation \<^verbatim>\<open>crossword.neighbors(var)\<close>, "the set
  of slots overlapping a given slot", derived from the overlap relation.
\<close>

definition neighbors :: "crossword \<Rightarrow> variable \<Rightarrow> variable list" where
  "neighbors cw var = filter (\<lambda>v. v \<noteq> var \<and> overlaps cw (v, var) \<noteq> None) (variables cw)"

text \<open>
  Modelled from the spec: the invariant of the structural model. Overlap entries are
  symmetric with the indices swapped, and each index falls inside its slot.
\<close>

definition wf_crossword :: "crossword \<Rightarrow> bool" where
  "wf_crossword cw \<longleftrightarrow>
     distinct (variables cw) \<and>
     (\<forall>a \<in> set (variables cw). \<forall>b \<in> set (variables cw).
        case overlaps cw (a, b) of
          None \<Rightarrow> overlaps cw (b, a) = None
        | Some (i, j) \<Rightarrow> overlaps cw (b, a) = Some (j, i) \<and> i < var_length a \<and> j < var_length b)"

text \<open>
  Python dictionaries keep insertion order, and sets are iterated in some order: both are
  lists here, a dictionary being an association list. \<^verbatim>\<open>self.domains\<close> maps each slot to
  its set of candidate words, an assignment maps slots to words.
\<close>

type_synonym domains = "(variable \<times> string list) list"
type_synonym assignment = "(variable \<times> string) list"
type_synonym arc = "variable \<times> variable"

definition dict_keys :: "('k \<times> 'v) list \<Rightarrow> 'k list" where
  "dict_keys d = map fst d"

text \<open>\<^verbatim>\<open>d[k]\<close> raises KeyError on a missing key.\<close>

definition dict_get :: "('k \<times> 'v) list \<Rightarrow> 'k \<Rightarrow> error + 'v" where
  "dict_get d k = (case map_of d k of None \<Rightarrow> Inl KeyError | Some v \<Rightarrow> Inr v)"

text \<open>\<^verbatim>\<open>word[i]\<close> raises IndexError when the (non-negative) index is out of range.\<close>

definition str_index :: "string \<Rightarrow> nat \<Rightarrow> error + char" where
  "str_index w i = (if i < length w then Inr (w ! i) else Inl IndexError)"

text \<open>\<^verbatim>\<open>__init__\<close>: every slot starts with a copy of the whole word list.\<close>

definition init_domains :: "crossword \<Rightarrow> domains" where
  "init_domains cw = map (\<lambda>var. (var, words cw)) (variables cw)"

subsection \<open>Node consistency\<close>

text \<open>\<^verbatim>\<open>enforce_node_consistency\<close>: for every slot, the words whose length differs from
  the slot's are collected and then removed from its domain.\<close>

definition enforce_node_consistency :: "domains \<Rightarrow> domains" where
  "enforce_node_consistency doms =
     map (\<lambda>(var, ws).
            let removes = filter (\<lambda>word. var_length var \<noteq> length word) ws
            in (var, filter (\<lambda>word. word \<notin> set removes) ws)) doms"

subsection \<open>Arc consistency\<close>

text \<open>The inner loop of \<^verbatim>\<open>revise\<close>: does \<open>word\<close> agree with some word of the domain of
  \<open>y\<close>? The loop stops at the first match; an index out of range raises.\<close>

fun has_match :: "nat \<Rightarrow> nat \<Rightarrow> string \<Rightarrow> string list \<Rightarrow> error + bool" where
  "has_match i j word [] = Inr False"
| "has_match i j word (aword # awords) =
     (case str_index word i of
        Inl e \<Rightarrow> Inl e
      | Inr c \<Rightarrow>
          (case str_index aword j of
             Inl e \<Rightarrow> Inl e
           | Inr c' \<Rightarrow> if c = c' then Inr True else has_match i j word awords))"

text \<open>The outer loop of \<^verbatim>\<open>revise\<close>: the words of the domain of \<open>x\<close> without a match are
  collected in \<open>removes\<close>. \<^verbatim>\<open>self.domains[y]\<close> is looked up once per word of \<open>x\<close>.\<close>

fun revise_removes :: "nat \<Rightarrow> nat \<Rightarrow> domains \<Rightarrow> variable \<Rightarrow> string list \<Rightarrow> error + string list" where
  "revise_removes i j doms y [] = Inr []"
| "revise_removes i j doms y (word # ws) =
     (case dict_get doms y of
        Inl e \<Rightarrow> Inl e
      | Inr ys \<Rightarrow>
          (case has_match i j word ys of
             Inl e \<Rightarrow> Inl e
           | Inr hasMatch \<Rightarrow>
               (case revise_removes i j doms y ws of
                  Inl e \<Rightarrow> Inl e
                | Inr removes \<Rightarrow> Inr (if hasMatch then removes else word # removes))))"

text \<open>\<^verbatim>\<open>revise(x, y)\<close> returns whether the domain of \<open>x\<close> was revised, together with the
  domain store it leaves. An exception leaves the store as it was: the removal is the
  last step.\<close>

definition revise :: "crossword \<Rightarrow> domains \<Rightarrow> variable \<Rightarrow> variable \<Rightarrow> (error + bool) \<times> domains" where
  "revise cw doms x y =
     (case overlaps cw (x, y) of
        None \<Rightarrow> (Inr False, doms)
      | Some (i, j) \<Rightarrow>
          (case dict_get doms x of
             Inl e \<Rightarrow> (Inl e, doms)
           | Inr xs \<Rightarrow>
               (case revise_removes i j doms y xs of
                  Inl e \<Rightarrow> (Inl e, doms)
                | Inr removes \<Rightarrow>
                    (Inr (removes \<noteq> []),
                     AList.update x (filter (\<lambda>word. word \<notin> set removes) xs) doms))))"

text \<open>The initial worklist of \<^verbatim>\<open>ac3\<close>: for every ordered pair of distinct slots, the arc
  is appended unless the reversed arc is already in the list.\<close>

definition initial_arcs :: "crossword \<Rightarrow> arc list" where
  "initial_arcs cw =
     foldl (\<lambda>arcs var.
        foldl (\<lambda>arcs var2.
           if var \<noteq> var2 \<and> (var2, var) \<notin> set arcs then arcs @ [(var, var2)] else arcs)
          arcs (variables cw))
       [] (variables cw)"

definition domains_size :: "domains \<Rightarrow> nat" where
  "domains_size doms = sum_list (map (\<lambda>(var, ws). length ws) doms)"

text \<open>A revision never enlarges the domain store, and a revision that reports a change
  has removed a word: this is what makes the worklist loop of \<^verbatim>\<open>ac3\<close> terminate.\<close>

lemma domains_size_update:
  "map_of doms x = Some xs \<Longrightarrow>
   domains_size (AList.update x xs' doms) + length xs = domains_size doms + length xs'"
  by (induction doms) (auto simp: domains_size_def)

lemma revise_removes_subset:
  "revise_removes i j doms y xs = Inr removes \<Longrightarrow> set removes \<subseteq> set xs"
  by (induction xs arbitrary: removes) (auto split: sum.splits if_splits)

lemma length_filter_removes:
  assumes "removes \<noteq> []" and "set removes \<subseteq> set xs"
  shows "length (filter (\<lambda>word. word \<notin> set removes) xs) < length xs"
proof -
  from assms obtain w where "w \<in> set xs" and "\<not> w \<notin> set removes"
    by (cases removes) auto
  then show ?thesis
    by (rule length_filter_less)
qed

lemma revise_size_le: "domains_size (snd (revise cw doms x y)) \<le> domains_size doms"
proof -
  have "domains_size (AList.update x (filter P xs) doms) \<le> domains_size doms"
    if "map_of doms x = Some xs" for P xs
    using domains_size_update [OF that, of "filter P xs"] length_filter_le [of P xs] by linarith
  then show ?thesis
    by (auto simp: revise_def dict_get_def split: option.splits sum.splits)
qed

lemma revise_size_less:
  assumes "fst (revise cw doms x y) = Inr True"
  shows "domains_size (snd (revise cw doms x y)) < domains_size doms"
proof -
  have "domains_size (AList.update x (filter (\<lambda>word. word \<notin> set removes) xs) doms) < domains_size doms"
    if "map_of doms x = Some xs" "removes \<noteq> []" "set removes \<subseteq> set xs" for removes xs
    using domains_size_update [OF that(1), of "filter (\<lambda>word. word \<notin> set removes) xs"]
      length_filter_removes [OF that(2,3)] by linarith
  with assms show ?thesis
    using revise_removes_subset
    by (fastforce simp: revise_def dict_get_def split: option.splits sum.splits)
qed

text \<open>
  The worklist loop of \<^verbatim>\<open>ac3\<close>. \<^verbatim>\<open>arcs.pop()\<close> takes the last arc of the list and
  \<^verbatim>\<open>arcs.append\<close> adds at its end. The loop returns \<open>False\<close> when a revision has
  emptied the domain of the revised slot, and \<open>True\<close> when the worklist is empty.
\<close>

function ac3_loop :: "crossword \<Rightarrow> domains \<Rightarrow> arc list \<Rightarrow> (error + bool) \<times> domains" where
  "ac3_loop cw doms arcs =
     (if arcs = [] then (Inr True, doms)
      else
        let arc = last arcs; arcs1 = butlast arcs;
            r = revise cw doms (fst arc) (snd arc)
        in (case fst r of
              Inl e \<Rightarrow> (Inl e, snd r)
            | Inr False \<Rightarrow> ac3_loop cw (snd r) arcs1
            | Inr True \<Rightarrow>
                (case dict_get (snd r) (fst arc) of
                   Inl e \<Rightarrow> (Inl e, snd r)
                 | Inr ws \<Rightarrow>
                     if length ws = 0 then (Inr False, snd r)
                     else ac3_loop cw (snd r)
                            (arcs1 @ map (\<lambda>neighbor. (neighbor, fst arc))
                               (filter (\<lambda>neighbor. neighbor \<noteq> snd arc) (neighbors cw (fst arc)))))))"
  by pat_completeness auto
termination
proof (relation "measures [\<lambda>(cw, doms, arcs). domains_size doms, \<lambda>(cw, doms, arcs). length arcs]", goal_cases)
  case 1
  show ?case by simp
next
  case (2 cw doms arcs arc arcs1 r b ws)
  then have "fst (revise cw doms (fst arc) (snd arc)) = Inr True"
    by simp
  then have "domains_size (snd (revise cw doms (fst arc) (snd arc))) < domains_size doms"
    by (rule revise_size_less)
  with 2 show ?case
    by simp
next
  case (3 cw doms arcs arc arcs1 r b)
  have "domains_size (snd (revise cw doms (fst arc) (snd arc))) \<le> domains_size doms"
    by (rule revise_size_le)
  with 3 show ?case
    by (auto simp: le_less)
qed

declare ac3_loop.simps [simp del]

text \<open>\<^verbatim>\<open>ac3(arcs=None)\<close>: without seed arcs (\<open>None\<close>, or an empty list) the worklist is
  the initial one.\<close>

definition ac3 :: "crossword \<Rightarrow> domains \<Rightarrow> arc list option \<Rightarrow> (error + bool) \<times> domains" where
  "ac3 cw doms arcs =
     ac3_loop cw doms
       (case arcs of
          None \<Rightarrow> initial_arcs cw
        | Some given \<Rightarrow> if given = [] then initial_arcs cw else given)"

subsection \<open>The assignment validator\<close>

text \<open>The loop of \<^verbatim>\<open>consistent\<close> over the neighbors of an assigned slot: \<open>Inr False\<close>
  is the early \<^verbatim>\<open>return False\<close> at a conflicting overlap, \<open>Inr True\<close> the end of the
  loop. Both words are indexed without a check of their lengths.\<close>

fun consistent_neighbors ::
  "crossword \<Rightarrow> assignment \<Rightarrow> variable \<Rightarrow> variable list \<Rightarrow> error + bool" where
  "consistent_neighbors cw asg variable [] = Inr True"
| "consistent_neighbors cw asg variable (neighbor # ns) =
     (if neighbor \<in> set (dict_keys asg) then
        (case dict_get asg variable of
           Inl e \<Rightarrow> Inl e
         | Inr vword \<Rightarrow>
             (case overlaps cw (variable, neighbor) of
                None \<Rightarrow> Inl TypeError
              | Some (i, j) \<Rightarrow>
                  (case str_index vword i of
                     Inl e \<Rightarrow> Inl e
                   | Inr c \<Rightarrow>
                       (case dict_get asg neighbor of
                          Inl e \<Rightarrow> Inl e
                        | Inr nword \<Rightarrow>
                            (case str_index nword j of
                               Inl e \<Rightarrow> Inl e
                             | Inr c' \<Rightarrow>
                                 if c \<noteq> c' then Inr False
                                 else consistent_neighbors cw asg variable ns)))))
      else consistent_neighbors cw asg variable ns)"

text \<open>The loop of \<^verbatim>\<open>consistent\<close> over the assigned slots, in the order of the
  dictionary; \<open>seen\<close> is the set \<^verbatim>\<open>distinct\<close> of the words met so far. After the loop
  the number of distinct words is compared with the number of assigned slots.\<close>

fun consistent_loop ::
  "crossword \<Rightarrow> assignment \<Rightarrow> string list \<Rightarrow> variable list \<Rightarrow> error + bool" where
  "consistent_loop cw asg seen [] = Inr (\<not> length seen \<noteq> length (dict_keys asg))"
| "consistent_loop cw asg seen (variable # rest) =
     (case dict_get asg variable of
        Inl e \<Rightarrow> Inl e
      | Inr word \<Rightarrow>
          if length word \<noteq> var_length variable then Inr False
          else
            (case consistent_neighbors cw asg variable (neighbors cw variable) of
               Inl e \<Rightarrow> Inl e
             | Inr False \<Rightarrow> Inr False
             | Inr True \<Rightarrow> consistent_loop cw asg (List.insert word seen) rest))"

definition consistent :: "crossword \<Rightarrow> assignment \<Rightarrow> error + bool" where
  "consistent cw asg = consistent_loop cw asg [] (dict_keys asg)"

text \<open>\<^verbatim>\<open>assignment_complete\<close>: every assigned slot is removed from a copy of the set of
  slots (\<^verbatim>\<open>set.remove\<close> raises KeyError on a slot that is not there); the assignment is
  complete when nothing is left and it is consistent.\<close>

fun remove_assigned :: "variable list \<Rightarrow> variable list \<Rightarrow> error + variable list" where
  "remove_assigned allVariables [] = Inr allVariables"
| "remove_assigned allVariables (variable # rest) =
     (if variable \<in> set allVariables then remove_assigned (removeAll variable allVariables) rest
      else Inl KeyError)"

definition assignment_complete :: "crossword \<Rightarrow> assignment \<Rightarrow> error + bool" where
  "assignment_complete cw asg =
     (case remove_assigned (variables cw) (dict_keys asg) of
        Inl e \<Rightarrow> Inl e
      | Inr allVariables \<Rightarrow>
          if \<not> length allVariables \<noteq> 0 then consistent cw asg else Inr False)"

subsection \<open>The ordering heuristics\<close>

text \<open>The innermost loop of \<^verbatim>\<open>order_domain_values\<close>: the words of one neighbor's domain
  that \<open>word\<close> rules out are counted into \<open>numRuledOut\<close>. The overlap entry of the pair is
  subscripted at every word.\<close>

fun ruled_out_words :: "(nat \<times> nat) option \<Rightarrow> string \<Rightarrow> string list \<Rightarrow> nat \<Rightarrow> error + nat" where
  "ruled_out_words ov word [] numRuledOut = Inr numRuledOut"
| "ruled_out_words ov word (neighborWord # rest) numRuledOut =
     (case ov of
        None \<Rightarrow> Inl TypeError
      | Some (i, j) \<Rightarrow>
          (case str_index word i of
             Inl e \<Rightarrow> Inl e
           | Inr c \<Rightarrow>
               (case str_index neighborWord j of
                  Inl e \<Rightarrow> Inl e
                | Inr c' \<Rightarrow>
                    ruled_out_words ov word rest
                      (if c \<noteq> c' then numRuledOut + 1 else numRuledOut))))"

fun ruled_out_neighbors ::
  "crossword \<Rightarrow> domains \<Rightarrow> assignment \<Rightarrow> variable \<Rightarrow> string \<Rightarrow> variable list \<Rightarrow> nat \<Rightarrow> error + nat" where
  "ruled_out_neighbors cw doms asg var word [] numRuledOut = Inr numRuledOut"
| "ruled_out_neighbors cw doms asg var word (neighbor # ns) numRuledOut =
     (if neighbor \<notin> set (dict_keys asg) then
        (case dict_get doms neighbor of
           Inl e \<Rightarrow> Inl e
         | Inr nws \<Rightarrow>
             (case ruled_out_words (overlaps cw (var, neighbor)) word nws numRuledOut of
                Inl e \<Rightarrow> Inl e
              | Inr n \<Rightarrow> ruled_out_neighbors cw doms asg var word ns n))
      else ruled_out_neighbors cw doms asg var word ns numRuledOut)"

fun sorting_list ::
  "crossword \<Rightarrow> domains \<Rightarrow> assignment \<Rightarrow> variable \<Rightarrow> string list \<Rightarrow> error + (string \<times> nat) list" where
  "sorting_list cw doms asg var [] = Inr []"
| "sorting_list cw doms asg var (word # ws) =
     (case ruled_out_neighbors cw doms asg var word (neighbors cw var) 0 of
        Inl e \<Rightarrow> Inl e
      | Inr numRuledOut \<Rightarrow>
          (case sorting_list cw doms asg var ws of
             Inl e \<Rightarrow> Inl e
           | Inr sortingList \<Rightarrow> Inr ((word, numRuledOut) # sortingList)))"

text \<open>\<^verbatim>\<open>order_domain_values\<close>: the words of the domain of \<open>var\<close>, sorted (stably) by the
  number of neighbor words they rule out.\<close>

definition order_domain_values ::
  "crossword \<Rightarrow> domains \<Rightarrow> variable \<Rightarrow> assignment \<Rightarrow> error + string list" where
  "order_domain_values cw doms var asg =
     (case dict_get doms var of
        Inl e \<Rightarrow> Inl e
      | Inr ws \<Rightarrow>
          (case sorting_list cw doms asg var ws of
             Inl e \<Rightarrow> Inl e
           | Inr sortingList \<Rightarrow> Inr (map fst (sort_key snd sortingList))))"

text \<open>The first loop of \<^verbatim>\<open>select_unassigned_variable\<close>: the unassigned slots are
  collected and \<open>shortest\<close> is updated. The test \<^verbatim>\<open>if not shortest\<close> holds when
  \<open>shortest\<close> is still \<^verbatim>\<open>None\<close> and also when it is \<open>0\<close>.\<close>

fun select_scan ::
  "domains \<Rightarrow> assignment \<Rightarrow> variable list \<Rightarrow> nat option \<Rightarrow> variable list
     \<Rightarrow> error + (nat option \<times> variable list)" where
  "select_scan doms asg [] shortest unassigned = Inr (shortest, unassigned)"
| "select_scan doms asg (variable # rest) shortest unassigned =
     (if variable \<notin> set (dict_keys asg) then
        (case dict_get doms variable of
           Inl e \<Rightarrow> Inl e
         | Inr ws \<Rightarrow>
             select_scan doms asg rest
               (case shortest of
                  None \<Rightarrow> Some (length ws)
                | Some s \<Rightarrow>
                    if s = 0 then Some (length ws)
                    else if length ws < s then Some (length ws)
                    else Some s)
               (unassigned @ [variable]))
      else select_scan doms asg rest shortest unassigned)"

text \<open>The second loop: the unassigned slots whose domain has \<open>shortest\<close> words, each with
  its number of neighbors.\<close>

fun best_vars ::
  "crossword \<Rightarrow> domains \<Rightarrow> nat option \<Rightarrow> variable list \<Rightarrow> error + (variable \<times> nat) list" where
  "best_vars cw doms shortest [] = Inr []"
| "best_vars cw doms shortest (variable # rest) =
     (case dict_get doms variable of
        Inl e \<Rightarrow> Inl e
      | Inr ws \<Rightarrow>
          (case best_vars cw doms shortest rest of
             Inl e \<Rightarrow> Inl e
           | Inr bestVars \<Rightarrow>
               Inr (if Some (length ws) = shortest
                    then (variable, length (neighbors cw variable)) # bestVars
                    else bestVars)))"

text \<open>\<^verbatim>\<open>select_unassigned_variable\<close>: the list is sorted (stably) by the number of
  neighbors and reversed; \<^verbatim>\<open>bestVars[0][0]\<close> raises IndexError on an empty list.\<close>

definition select_unassigned_variable ::
  "crossword \<Rightarrow> domains \<Rightarrow> assignment \<Rightarrow> error + variable" where
  "select_unassigned_variable cw doms asg =
     (case select_scan doms asg (variables cw) None [] of
        Inl e \<Rightarrow> Inl e
      | Inr (shortest, unassigned) \<Rightarrow>
          (case best_vars cw doms shortest unassigned of
             Inl e \<Rightarrow> Inl e
           | Inr bestVars \<Rightarrow>
               (case rev (sort_key snd bestVars) of
                  [] \<Rightarrow> Inl IndexError
                | best # _ \<Rightarrow> Inr (fst best))))"

subsection \<open>Backtracking search\<close>

text \<open>\<^verbatim>\<open>assignment.pop(variable)\<close> raises KeyError on a missing key.\<close>

definition dict_pop :: "('k \<times> 'v) list \<Rightarrow> 'k \<Rightarrow> error + ('k \<times> 'v) list" where
  "dict_pop d k = (if k \<in> set (dict_keys d) then Inr (AList.delete k d) else Inl KeyError)"

text \<open>
  A call of \<^verbatim>\<open>backtrack\<close> works on the dictionary it is given: what it returns is that
  same object, so the assignment after the call and the returned one are one value here.
  The domain store is passed along with it, so that the state after the call can be
  compared with the state before. \<open>None\<close> is the bound on the recursion depth being
  reached; \<open>Some (Inr (doms, result))\<close> is a return; \<open>Some (Inl (e, doms, asg))\<close> is
  the exception \<open>e\<close>, raised when the domain store was \<open>doms\<close> and the dictionary held
  \<open>asg\<close>. Nothing in \<^verbatim>\<open>backtrack\<close> catches an exception, so that is the state the
  caller is left with.
\<close>

type_synonym search_result =
  "(error \<times> domains \<times> assignment + domains \<times> assignment) option"

text \<open>The loop of \<^verbatim>\<open>backtrack\<close> over the candidate words; \<open>recurse\<close> is the recursive
  call. After a recursive call that did not complete the puzzle the slot is popped from
  the dictionary that call has left.\<close>

fun backtrack_loop ::
  "(domains \<Rightarrow> assignment \<Rightarrow> search_result) \<Rightarrow> crossword \<Rightarrow> variable \<Rightarrow> string list
     \<Rightarrow> domains \<Rightarrow> assignment \<Rightarrow> search_result" where
  "backtrack_loop recurse cw variable [] doms asg = Some (Inr (doms, asg))"
| "backtrack_loop recurse cw variable (word # ws) doms asg =
     (let asg1 = AList.update variable word asg in
      case consistent cw asg1 of
        Inl e \<Rightarrow> Some (Inl (e, doms, asg1))
      | Inr False \<Rightarrow>
          (case dict_pop asg1 variable of
             Inl e \<Rightarrow> Some (Inl (e, doms, asg1))
           | Inr asg2 \<Rightarrow> backtrack_loop recurse cw variable ws doms asg2)
      | Inr True \<Rightarrow>
          (case recurse doms asg1 of
             None \<Rightarrow> None
           | Some (Inl raised) \<Rightarrow> Some (Inl raised)
           | Some (Inr (doms1, result)) \<Rightarrow>
               (case assignment_complete cw result of
                  Inl e \<Rightarrow> Some (Inl (e, doms1, result))
                | Inr True \<Rightarrow> Some (Inr (doms1, result))
                | Inr False \<Rightarrow>
                    (case dict_pop result variable of
                       Inl e \<Rightarrow> Some (Inl (e, doms1, result))
                     | Inr asg2 \<Rightarrow> backtrack_loop recurse cw variable ws doms1 asg2))))"

text \<open>The words the loop of \<^verbatim>\<open>backtrack\<close> runs over: \<^verbatim>\<open>self.domains[variable]\<close>, in the
  iteration order of that set.\<close>

definition candidate_words :: "domains \<Rightarrow> variable \<Rightarrow> error + string list" where
  "candidate_words doms variable = dict_get doms variable"

text \<open>\<^verbatim>\<open>backtrack\<close>, with a bound on the depth of the recursion.\<close>

primrec backtrack_fuel :: "nat \<Rightarrow> crossword \<Rightarrow> domains \<Rightarrow> assignment \<Rightarrow> search_result" where
  "backtrack_fuel 0 cw doms asg = None"
| "backtrack_fuel (Suc n) cw doms asg =
     (case assignment_complete cw asg of
        Inl e \<Rightarrow> Some (Inl (e, doms, asg))
      | Inr True \<Rightarrow> Some (Inr (doms, asg))
      | Inr False \<Rightarrow>
          (case select_unassigned_variable cw doms asg of
             Inl e \<Rightarrow> Some (Inl (e, doms, asg))
           | Inr variable \<Rightarrow>
               (case candidate_words doms variable of
                  Inl e \<Rightarrow> Some (Inl (e, doms, asg))
                | Inr ws \<Rightarrow> backtrack_loop (backtrack_fuel n cw) cw variable ws doms asg)))"

text \<open>The recursion of \<^verbatim>\<open>backtrack\<close> is at most one call deeper than the number of
  slots (every call assigns one more slot), which is the bound used.\<close>

definition backtrack :: "crossword \<Rightarrow> domains \<Rightarrow> assignment \<Rightarrow> search_result" where
  "backtrack cw doms asg = backtrack_fuel (Suc (length (variables cw))) cw doms asg"

subsection \<open>The entry point\<close>

text \<open>
  \<^verbatim>\<open>solve\<close>: node consistency, then \<^verbatim>\<open>ac3\<close>, whose returned flag is dropped, then
  \<^verbatim>\<open>backtrack\<close> on an empty dictionary. What \<^verbatim>\<open>solve\<close> returns is what \<^verbatim>\<open>backtrack\<close>
  returns, a dictionary: \<open>Some result\<close> here, \<open>None\<close> standing for Python's \<^verbatim>\<open>None\<close>.
\<close>

definition solve :: "crossword \<Rightarrow> (error + assignment option) option" where
  "solve cw =
     (let doms1 = enforce_node_consistency (init_domains cw);
          r = ac3 cw doms1 None
      in case fst r of
           Inl e \<Rightarrow> Some (Inl e)
         | Inr flag \<Rightarrow>
             (case backtrack cw (snd r) [] of
                None \<Rightarrow> None
              | Some (Inl (e, doms2, asg2)) \<Rightarrow> Some (Inl e)
              | Some (Inr (doms2, result)) \<Rightarrow> Some (Inr (Some result))))"

subsection \<open>Example puzzles\<close>

text \<open>Two crossing slots: the first letter of the across slot is the second letter of
  the down slot. A third slot of length 4 lies apart from both.\<close>

definition slot_a :: variable where "slot_a = Variable 1 0 ACROSS 3"
definition slot_b :: variable where "slot_b = Variable 0 0 DOWN 3"
definition slot_c :: variable where "slot_c = Variable 4 0 ACROSS 4"

definition crossing :: "variable \<times> variable \<Rightarrow> (nat \<times> nat) option" where
  "crossing p =
     (if p = (slot_a, slot_b) then Some (0, 1)
      else if p = (slot_b, slot_a) then Some (1, 0)
      else None)"

definition puzzle_cross :: crossword where
  "puzzle_cross =
     \<lparr>variables = [slot_a, slot_b], overlaps = crossing,
      words = [''CAT'', ''ARC'', ''DOG'', ''XYZ'']\<rparr>"

definition puzzle_short :: crossword where
  "puzzle_short = \<lparr>variables = [slot_a], overlaps = (\<lambda>p. None), words = [''AB'']\<rparr>"

definition puzzle_apart :: crossword where
  "puzzle_apart =
     \<lparr>variables = [slot_c, slot_a], overlaps = (\<lambda>p. None), words = [''CAT'', ''DOG'']\<rparr>"

definition puzzle_order :: crossword where
  "puzzle_order =
     \<lparr>variables = [slot_a, slot_b], overlaps = crossing,
      words = [''ACE'', ''OWL'', ''CAT'', ''COT'', ''TOP'']\<rparr>"

section \<open>Properties\<close>

subsection \<open>Predicates used to state them\<close>

text \<open>A domain store has only shrunk with respect to an earlier one: the same slots in
  the same order, every domain a subset of what it was.\<close>

definition domains_shrunk :: "domains \<Rightarrow> domains \<Rightarrow> bool" where
  "domains_shrunk doms' doms =
     list_all2 (\<lambda>(var', ws') (var, ws). var' = var \<and> set ws' \<subseteq> set ws) doms' doms"

text \<open>The worklist after a revision that changed the domain of the popped arc's first
  slot: the arcs from its other neighbors are appended.\<close>

definition requeued :: "crossword \<Rightarrow> arc list \<Rightarrow> arc list" where
  "requeued cw arcs =
     butlast arcs @ map (\<lambda>neighbor. (neighbor, fst (last arcs)))
       (filter (\<lambda>neighbor. neighbor \<noteq> snd (last arcs)) (neighbors cw (fst (last arcs))))"

text \<open>Arc consistency: every word of every domain has, for every slot that overlaps
  its slot, a word in that slot's domain that agrees with it at the overlap.\<close>

definition supported :: "crossword \<Rightarrow> domains \<Rightarrow> variable \<Rightarrow> variable \<Rightarrow> string \<Rightarrow> bool" where
  "supported cw doms x y word =
     (case overlaps cw (x, y) of
        None \<Rightarrow> True
      | Some (i, j) \<Rightarrow>
          (case map_of doms y of
             None \<Rightarrow> False
           | Some ys \<Rightarrow>
               list_ex (\<lambda>aword. i < length word \<and> j < length aword \<and> word ! i = aword ! j) ys))"

definition arc_consistent :: "crossword \<Rightarrow> domains \<Rightarrow> bool" where
  "arc_consistent cw doms =
     list_all (\<lambda>(x, xs). list_all (\<lambda>y. list_all (supported cw doms x y) xs) (variables cw)) doms"

subsection \<open>The consistency operations only shrink domains\<close>

lemma domains_shrunk_refl: "domains_shrunk doms doms"
  by (simp add: domains_shrunk_def list_all2_same split_beta)

lemma domains_shrunk_trans:
  "domains_shrunk doms3 doms2 \<Longrightarrow> domains_shrunk doms2 doms1 \<Longrightarrow> domains_shrunk doms3 doms1"
  unfolding domains_shrunk_def
  by (rule list_all2_trans [where ?P1.0 = "\<lambda>(var', ws') (var, ws). var' = var \<and> set ws' \<subseteq> set ws"
        and ?P2.0 = "\<lambda>(var', ws') (var, ws). var' = var \<and> set ws' \<subseteq> set ws"]) auto

lemma domains_shrunk_update:
  "map_of doms x = Some xs \<Longrightarrow> set xs' \<subseteq> set xs \<Longrightarrow> domains_shrunk (AList.update x xs' doms) doms"
  by (induction doms) (auto simp: domains_shrunk_def list_all2_same split_beta)

lemma enforce_node_consistency_shrunk: "domains_shrunk (enforce_node_consistency doms) doms"
  by (induction doms) (auto simp: domains_shrunk_def enforce_node_consistency_def)

lemma revise_shrunk: "domains_shrunk (snd (revise cw doms x y)) doms"
  by (auto simp: revise_def dict_get_def domains_shrunk_refl domains_shrunk_update
      split: option.splits sum.splits)


text \<open>The worklist loop, one equation for every way through its body.\<close>

lemma ac3_loop_empty: "ac3_loop cw doms [] = (Inr True, doms)"
  by (simp add: ac3_loop.simps)

lemma ac3_loop_error:
  "arcs \<noteq> [] \<Longrightarrow> fst (revise cw doms (fst (last arcs)) (snd (last arcs))) = Inl e \<Longrightarrow>
   ac3_loop cw doms arcs = (Inl e, snd (revise cw doms (fst (last arcs)) (snd (last arcs))))"
  by (subst ac3_loop.simps) (simp add: Let_def)

lemma ac3_loop_unrevised:
  "arcs \<noteq> [] \<Longrightarrow> fst (revise cw doms (fst (last arcs)) (snd (last arcs))) = Inr False \<Longrightarrow>
   ac3_loop cw doms arcs =
   ac3_loop cw (snd (revise cw doms (fst (last arcs)) (snd (last arcs)))) (butlast arcs)"
  by (subst ac3_loop.simps) (simp add: Let_def)

lemma ac3_loop_keyerror:
  "arcs \<noteq> [] \<Longrightarrow> fst (revise cw doms (fst (last arcs)) (snd (last arcs))) = Inr True \<Longrightarrow>
   dict_get (snd (revise cw doms (fst (last arcs)) (snd (last arcs)))) (fst (last arcs)) = Inl e \<Longrightarrow>
   ac3_loop cw doms arcs = (Inl e, snd (revise cw doms (fst (last arcs)) (snd (last arcs))))"
  by (subst ac3_loop.simps) (simp add: Let_def)

lemma ac3_loop_emptied:
  "arcs \<noteq> [] \<Longrightarrow> fst (revise cw doms (fst (last arcs)) (snd (last arcs))) = Inr True \<Longrightarrow>
   dict_get (snd (revise cw doms (fst (last arcs)) (snd (last arcs)))) (fst (last arcs)) = Inr [] \<Longrightarrow>
   ac3_loop cw doms arcs = (Inr False, snd (revise cw doms (fst (last arcs)) (snd (last arcs))))"
  by (subst ac3_loop.simps) (simp add: Let_def)

lemma ac3_loop_revised:
  "arcs \<noteq> [] \<Longrightarrow> fst (revise cw doms (fst (last arcs)) (snd (last arcs))) = Inr True \<Longrightarrow>
   dict_get (snd (revise cw doms (fst (last arcs)) (snd (last arcs)))) (fst (last arcs)) = Inr ws \<Longrightarrow>
   ws \<noteq> [] \<Longrightarrow>
   ac3_loop cw doms arcs =
   ac3_loop cw (snd (revise cw doms (fst (last arcs)) (snd (last arcs)))) (requeued cw arcs)"
  by (subst ac3_loop.simps) (simp add: Let_def requeued_def)

lemma ac3_loop_induct2 [case_names step]:
  assumes "\<And>cw doms arcs.
     (arcs \<noteq> [] \<Longrightarrow> fst (revise cw doms (fst (last arcs)) (snd (last arcs))) = Inr False \<Longrightarrow>
        P cw (snd (revise cw doms (fst (last arcs)) (snd (last arcs)))) (butlast arcs)) \<Longrightarrow>
     (\<And>ws. arcs \<noteq> [] \<Longrightarrow> fst (revise cw doms (fst (last arcs)) (snd (last arcs))) = Inr True \<Longrightarrow>
        dict_get (snd (revise cw doms (fst (last arcs)) (snd (last arcs)))) (fst (last arcs)) = Inr ws \<Longrightarrow>
        ws \<noteq> [] \<Longrightarrow>
        P cw (snd (revise cw doms (fst (last arcs)) (snd (last arcs)))) (requeued cw arcs)) \<Longrightarrow>
     P cw doms arcs"
  shows "P cw doms arcs"
proof (induction cw doms arcs rule: ac3_loop.induct)
  case (1 cw doms arcs)
  show ?case
  proof (rule assms)
    assume "arcs \<noteq> []" "fst (revise cw doms (fst (last arcs)) (snd (last arcs))) = Inr False"
    then show "P cw (snd (revise cw doms (fst (last arcs)) (snd (last arcs)))) (butlast arcs)"
      by (intro "1.IH"(2)) simp_all
  next
    fix ws
    assume "arcs \<noteq> []" "fst (revise cw doms (fst (last arcs)) (snd (last arcs))) = Inr True"
      "dict_get (snd (revise cw doms (fst (last arcs)) (snd (last arcs)))) (fst (last arcs)) = Inr ws"
      "ws \<noteq> []"
    then have "P cw (snd (revise cw doms (fst (last arcs)) (snd (last arcs))))
      (butlast arcs @ map (\<lambda>neighbor. (neighbor, fst (last arcs)))
       (filter (\<lambda>neighbor. neighbor \<noteq> snd (last arcs)) (neighbors cw (fst (last arcs)))))"
      by (intro "1.IH"(1)) simp_all
    then show "P cw (snd (revise cw doms (fst (last arcs)) (snd (last arcs)))) (requeued cw arcs)"
      by (simp add: requeued_def)
  qed
qed

text \<open>Every way out of the loop, in one case analysis.\<close>

lemma ac3_loop_cases:
  obtains (empty) "arcs = []" "ac3_loop cw doms arcs = (Inr True, doms)"
  | (error) e where "arcs \<noteq> []"
      "ac3_loop cw doms arcs = (Inl e, snd (revise cw doms (fst (last arcs)) (snd (last arcs))))"
  | (unrevised) "arcs \<noteq> []" "fst (revise cw doms (fst (last arcs)) (snd (last arcs))) = Inr False"
      "ac3_loop cw doms arcs =
       ac3_loop cw (snd (revise cw doms (fst (last arcs)) (snd (last arcs)))) (butlast arcs)"
  | (emptied) "arcs \<noteq> []" "fst (revise cw doms (fst (last arcs)) (snd (last arcs))) = Inr True"
      "dict_get (snd (revise cw doms (fst (last arcs)) (snd (last arcs)))) (fst (last arcs)) = Inr []"
      "ac3_loop cw doms arcs = (Inr False, snd (revise cw doms (fst (last arcs)) (snd (last arcs))))"
  | (revised) ws where "arcs \<noteq> []"
      "fst (revise cw doms (fst (last arcs)) (snd (last arcs))) = Inr True"
      "dict_get (snd (revise cw doms (fst (last arcs)) (snd (last arcs)))) (fst (last arcs)) = Inr ws"
      "ws \<noteq> []"
      "ac3_loop cw doms arcs =
       ac3_loop cw (snd (revise cw doms (fst (last arcs)) (snd (last arcs)))) (requeued cw arcs)"
proof (cases "arcs = []")
  case True
  then show ?thesis
    using empty ac3_loop_empty by simp
next
  case nonempty: False
  let ?r = "revise cw doms (fst (last arcs)) (snd (last arcs))"
  show ?thesis
  proof (cases "fst ?r")
    case (Inl e)
    with nonempty show ?thesis
      using error ac3_loop_error by simp
  next
    case (Inr b)
    show ?thesis
    proof (cases b)
      case False
      with nonempty Inr show ?thesis
        using unrevised ac3_loop_unrevised by simp
    next
      case True
      show ?thesis
      proof (cases "dict_get (snd ?r) (fst (last arcs))")
        case (Inl e)
        with nonempty Inr True show ?thesis
          using error ac3_loop_keyerror by simp
      next
        case ws: (Inr ws)
        show ?thesis
        proof (cases "ws = []")
          case True
          with nonempty Inr \<open>b\<close> ws show ?thesis
            using emptied ac3_loop_emptied by simp
        next
          case False
          with nonempty Inr \<open>b\<close> ws show ?thesis
            using revised [of ws] ac3_loop_revised [of arcs cw doms ws] by simp
        qed
      qed
    qed
  qed
qed

lemma ac3_loop_shrunk: "domains_shrunk (snd (ac3_loop cw doms arcs)) doms"
proof (induction cw doms arcs rule: ac3_loop_induct2)
  case (step cw doms arcs)
  have r: "domains_shrunk (snd (revise cw doms (fst (last arcs)) (snd (last arcs)))) doms"
    by (rule revise_shrunk)
  show ?case
  proof (cases rule: ac3_loop_cases [of arcs cw doms])
    case empty
    then show ?thesis by (simp add: domains_shrunk_refl)
  next
    case (error e)
    with r show ?thesis by simp
  next
    case unrevised
    with step(1) r show ?thesis
      by (auto intro: domains_shrunk_trans)
  next
    case emptied
    with r show ?thesis by simp
  next
    case (revised ws)
    with step(2) r show ?thesis
      by (auto intro: domains_shrunk_trans)
  qed
qed


text \<open>
  C8. Every consistency operation only shrinks domains: after
  \<^verbatim>\<open>enforce_node_consistency\<close>, \<^verbatim>\<open>revise\<close> or \<^verbatim>\<open>ac3\<close> (whatever the seed arcs, and also
  when the call raises) the store has the same slots, and every slot's domain is a subset
  of what it was before the call.
\<close>

theorem consistency_operations_only_shrink:
  "domains_shrunk (enforce_node_consistency doms) doms \<and>
   domains_shrunk (snd (revise cw doms x y)) doms \<and>
   domains_shrunk (snd (ac3 cw doms arcs)) doms"
  by (simp add: enforce_node_consistency_shrunk revise_shrunk ac3_def ac3_loop_shrunk)

subsection \<open>Where the program departs from its documentation\<close>

text \<open>
  C1. \<^verbatim>\<open>solve\<close> should return \<^verbatim>\<open>None\<close> exactly when there is no solution. The puzzle
  with one slot of length 3 and the word list \<open>{AB}\<close> has none, and \<^verbatim>\<open>solve\<close> returns the
  empty dictionary, which is not \<^verbatim>\<open>None\<close> and not a complete assignment.
\<close>

theorem solve_unsolvable_returns_empty_dict:
  "solve puzzle_short = Some (Inr (Some [])) \<and>
   assignment_complete puzzle_short [] = Inr False"
  by code_simp

text \<open>
  C3. After \<^verbatim>\<open>ac3\<close> has succeeded the domains should be arc consistent. On the two
  crossing slots with the words \<open>{CAT, ARC, DOG, XYZ}\<close> the initial worklist holds the
  arc from the across slot to the down slot only; \<^verbatim>\<open>ac3\<close> returns \<open>True\<close> and leaves
  \<open>ARC\<close>, \<open>DOG\<close> and \<open>XYZ\<close> in the domain of the down slot, none of which has a
  partner in the domain of the across slot.
\<close>

theorem ac3_success_not_arc_consistent:
  "ac3 puzzle_cross (enforce_node_consistency (init_domains puzzle_cross)) None =
     (Inr True, [(slot_a, [''ARC'']), (slot_b, [''CAT'', ''ARC'', ''DOG'', ''XYZ''])]) \<and>
   \<not> arc_consistent puzzle_cross
       (snd (ac3 puzzle_cross (enforce_node_consistency (init_domains puzzle_cross)) None)) \<and>
   \<not> supported puzzle_cross
       (snd (ac3 puzzle_cross (enforce_node_consistency (init_domains puzzle_cross)) None))
       slot_b slot_a ''DOG''"
  by code_simp

text \<open>
  C4. \<^verbatim>\<open>ac3\<close> should never succeed while a domain is empty. On the puzzle with one slot
  of length 3 and the word list \<open>{AB}\<close>, node consistency empties the slot's domain and
  \<^verbatim>\<open>ac3\<close> returns \<open>True\<close>.
\<close>

theorem ac3_succeeds_with_empty_domain:
  "enforce_node_consistency (init_domains puzzle_short) = [(slot_a, [])] \<and>
   ac3 puzzle_short (enforce_node_consistency (init_domains puzzle_short)) None =
     (Inr True, [(slot_a, [])])"
  by code_simp

text \<open>
  C6. \<^verbatim>\<open>select_unassigned_variable\<close> should return an unassigned slot with the fewest
  remaining words. With a slot of length 4 and a slot of length 3 and the words
  \<open>{CAT, DOG}\<close>, the first domain is empty and the second has two words; the slot with
  two words is returned.
\<close>

theorem select_skips_empty_domain:
  "enforce_node_consistency (init_domains puzzle_apart) =
     [(slot_c, []), (slot_a, [''CAT'', ''DOG''])] \<and>
   select_unassigned_variable puzzle_apart
     (enforce_node_consistency (init_domains puzzle_apart)) [] = Inr slot_a"
  by code_simp

text \<open>
  C10. \<^verbatim>\<open>consistent\<close> should evaluate without an index out of range on every
  assignment. On the two crossing slots, with \<open>ARC\<close> assigned to the across slot and the
  one-letter word \<open>C\<close> to the down slot, in this order, it raises IndexError: the second
  letter of the down slot's word is read before that word's length is checked. With the
  two entries in the other order it returns \<open>False\<close>.
\<close>

theorem consistent_raises_index_error:
  "consistent puzzle_cross [(slot_a, ''ARC''), (slot_b, ''C'')] = Inl IndexError \<and>
   consistent puzzle_cross [(slot_b, ''C''), (slot_a, ''ARC'')] = Inr False"
  by code_simp

subsection \<open>Backtracking: what a call leaves behind, and that it returns\<close>

text \<open>The slot picked by \<^verbatim>\<open>select_unassigned_variable\<close> is a slot of the puzzle without
  an entry in the assignment.\<close>

lemma select_scan_unassigned:
  "select_scan doms asg vs shortest unassigned = Inr (shortest', unassigned') \<Longrightarrow>
   set unassigned' \<subseteq> set unassigned \<union> (set vs - set (dict_keys asg))"
proof (induction vs arbitrary: shortest unassigned)
  case Nil
  then show ?case by simp
next
  case (Cons v vs)
  show ?case
  proof (cases "v \<in> set (dict_keys asg)")
    case True
    with Cons.prems have "select_scan doms asg vs shortest unassigned = Inr (shortest', unassigned')"
      by simp
    from Cons.IH [OF this] show ?thesis by auto
  next
    case False
    with Cons.prems obtain sh where
      "select_scan doms asg vs sh (unassigned @ [v]) = Inr (shortest', unassigned')"
      by (auto split: sum.splits)
    from Cons.IH [OF this] False show ?thesis by auto
  qed
qed

lemma best_vars_subset:
  "best_vars cw doms shortest unassigned = Inr bestVars \<Longrightarrow> fst ` set bestVars \<subseteq> set unassigned"
  by (induction unassigned arbitrary: bestVars) (fastforce split: sum.splits if_splits)+

lemma select_unassigned_variable_unassigned:
  assumes "select_unassigned_variable cw doms asg = Inr variable"
  shows "variable \<in> set (variables cw)" and "variable \<notin> set (dict_keys asg)"
proof -
  from assms obtain shortest unassigned bestVars best rest where
    scan: "select_scan doms asg (variables cw) None [] = Inr (shortest, unassigned)"
    and best: "best_vars cw doms shortest unassigned = Inr bestVars"
    and hd: "rev (sort_key snd bestVars) = best # rest" and v: "variable = fst best"
    by (auto simp: select_unassigned_variable_def split: sum.splits list.splits prod.splits)
  from hd have "best \<in> set (rev (sort_key snd bestVars))"
    by simp
  then have "best \<in> set bestVars"
    by simp
  with best_vars_subset [OF best] v have "variable \<in> set unassigned"
    by auto
  with select_scan_unassigned [OF scan]
  show "variable \<in> set (variables cw)" and "variable \<notin> set (dict_keys asg)"
    by auto
qed

lemma dict_pop_update:
  "k \<notin> set (dict_keys d) \<Longrightarrow> dict_pop (AList.update k v d) k = Inr d"
proof -
  assume "k \<notin> set (dict_keys d)"
  then have "AList.delete k d = d"
    by (induction d) (auto simp: dict_keys_def)
  then show ?thesis
    by (simp add: dict_pop_def dict_keys_def AList.dom_update AList.delete_update_same)
qed

text \<open>What a call of \<^verbatim>\<open>backtrack\<close> leaves behind, as a property of the recursive call
  the loop is given: the domain store as it was, and the assignment as it was unless the
  returned assignment is complete.\<close>

definition frame_ok ::
  "crossword \<Rightarrow> (domains \<Rightarrow> assignment \<Rightarrow> search_result) \<Rightarrow> bool" where
  "frame_ok cw recurse \<longleftrightarrow>
     (\<forall>doms asg doms' result. recurse doms asg = Some (Inr (doms', result)) \<longrightarrow>
        doms' = doms \<and> (assignment_complete cw result \<noteq> Inr True \<longrightarrow> result = asg))"

lemma backtrack_loop_frame:
  assumes "frame_ok cw recurse" and "variable \<notin> set (dict_keys asg)"
    and "backtrack_loop recurse cw variable ws doms asg = Some (Inr (doms', result))"
  shows "doms' = doms \<and> (assignment_complete cw result \<noteq> Inr True \<longrightarrow> result = asg)"
  using assms(3)
proof (induction ws)
  case Nil
  then show ?case by simp
next
  case (Cons word ws)
  let ?asg1 = "AList.update variable word asg"
  have pop: "dict_pop ?asg1 variable = Inr asg"
    using assms(2) by (rule dict_pop_update)
  show ?case
  proof (cases "consistent cw ?asg1")
    case (Inl e)
    with Cons.prems show ?thesis by (simp add: Let_def)
  next
    case (Inr ok)
    show ?thesis
    proof (cases ok)
      case False
      with Inr pop Cons.prems have "backtrack_loop recurse cw variable ws doms asg = Some (Inr (doms', result))"
        by (simp add: Let_def)
      then show ?thesis by (rule Cons.IH)
    next
      case True
      show ?thesis
      proof (cases "recurse doms ?asg1")
        case None
        with Inr True Cons.prems show ?thesis by (simp add: Let_def)
      next
        case (Some r)
        show ?thesis
        proof (cases r)
          case (Inl e)
          with Some Inr True Cons.prems show ?thesis by (simp add: Let_def)
        next
          case r: (Inr p)
          obtain doms1 result1 where p: "p = (doms1, result1)"
            by (cases p)
          from assms(1) Some r p have d1: "doms1 = doms"
            and r1: "assignment_complete cw result1 \<noteq> Inr True \<Longrightarrow> result1 = ?asg1"
            by (auto simp: frame_ok_def)
          show ?thesis
          proof (cases "assignment_complete cw result1")
            case (Inl e)
            with Some r p Inr True Cons.prems show ?thesis by (simp add: Let_def)
          next
            case c: (Inr complete)
            show ?thesis
            proof (cases complete)
              case True
              with c Some r p Inr \<open>ok\<close> Cons.prems d1 show ?thesis by (simp add: Let_def)
            next
              case False
              with c r1 have "result1 = ?asg1" by simp
              with c False Some r p Inr \<open>ok\<close> Cons.prems d1 pop
              have "backtrack_loop recurse cw variable ws doms asg = Some (Inr (doms', result))"
                by (simp add: Let_def)
              then show ?thesis by (rule Cons.IH)
            qed
          qed
        qed
      qed
    qed
  qed
qed

lemma backtrack_fuel_frame: "frame_ok cw (backtrack_fuel n cw)"
proof (induction n)
  case 0
  show ?case by (simp add: frame_ok_def)
next
  case (Suc n)
  show ?case
    unfolding frame_ok_def
  proof (intro allI impI)
    fix doms asg doms' result
    assume *: "backtrack_fuel (Suc n) cw doms asg = Some (Inr (doms', result))"
    show "doms' = doms \<and> (assignment_complete cw result \<noteq> Inr True \<longrightarrow> result = asg)"
    proof (cases "assignment_complete cw asg")
      case (Inl e)
      with * show ?thesis by simp
    next
      case (Inr complete)
      show ?thesis
      proof (cases complete)
        case True
        with Inr * show ?thesis by auto
      next
        case False
        with Inr * obtain variable ws where
          sel: "select_unassigned_variable cw doms asg = Inr variable"
          and loop: "backtrack_loop (backtrack_fuel n cw) cw variable ws doms asg = Some (Inr (doms', result))"
          by (auto split: sum.splits)
        from Suc select_unassigned_variable_unassigned(2) [OF sel] loop
        show ?thesis by (rule backtrack_loop_frame)
      qed
    qed
  qed
qed

lemma dict_keys_update: "set (dict_keys (AList.update k v d)) = insert k (set (dict_keys d))"
  by (simp add: dict_keys_def AList.dom_update)

text \<open>The number of slots without an entry in the assignment bounds the depth of the
  recursion.\<close>

definition unassigned_count :: "crossword \<Rightarrow> assignment \<Rightarrow> nat" where
  "unassigned_count cw asg = card (set (variables cw) - set (dict_keys asg))"

lemma unassigned_count_update:
  assumes "variable \<in> set (variables cw)" and "variable \<notin> set (dict_keys asg)"
  shows "unassigned_count cw (AList.update variable word asg) < unassigned_count cw asg"
proof -
  have "set (variables cw) - insert variable (set (dict_keys asg))
      \<subset> set (variables cw) - set (dict_keys asg)"
    using assms by auto
  then show ?thesis
    unfolding unassigned_count_def dict_keys_update
    by (intro psubset_card_mono) auto
qed

lemma unassigned_count_le: "unassigned_count cw asg \<le> length (variables cw)"
proof -
  have "unassigned_count cw asg \<le> card (set (variables cw))"
    unfolding unassigned_count_def by (intro card_mono) auto
  also have "\<dots> \<le> length (variables cw)"
    by (rule card_length)
  finally show ?thesis .
qed

lemma backtrack_loop_total:
  assumes "frame_ok cw recurse" and "variable \<notin> set (dict_keys asg)"
    and "\<And>word. word \<in> set ws \<Longrightarrow> recurse doms (AList.update variable word asg) \<noteq> None"
  shows "backtrack_loop recurse cw variable ws doms asg \<noteq> None"
  using assms(3)
proof (induction ws)
  case Nil
  show ?case by simp
next
  case (Cons word ws)
  let ?asg1 = "AList.update variable word asg"
  have pop: "dict_pop ?asg1 variable = Inr asg"
    using assms(2) by (rule dict_pop_update)
  have "backtrack_loop recurse cw variable ws doms asg \<noteq> None"
    by (rule Cons.IH) (simp add: Cons.prems)
  then obtain rest where IH: "backtrack_loop recurse cw variable ws doms asg = Some rest"
    by auto
  from Cons.prems obtain r where r: "recurse doms ?asg1 = Some r"
    by fastforce
  show ?case
  proof (cases r)
    case (Inl e)
    with r show ?thesis
      by (auto simp: Let_def pop IH split: sum.splits bool.splits)
  next
    case (Inr p)
    obtain doms1 result1 where p: "p = (doms1, result1)"
      by (cases p)
    from assms(1) r Inr p have "doms1 = doms"
      and "assignment_complete cw result1 \<noteq> Inr True \<Longrightarrow> result1 = ?asg1"
      by (auto simp: frame_ok_def)
    with r Inr p show ?thesis
      by (auto simp: Let_def pop IH split: sum.splits bool.splits)
  qed
qed

lemma backtrack_fuel_total:
  "unassigned_count cw asg < n \<Longrightarrow> backtrack_fuel n cw doms asg \<noteq> None"
proof (induction n arbitrary: asg)
  case 0
  then show ?case by simp
next
  case (Suc n)
  show ?case
  proof (cases "assignment_complete cw asg")
    case (Inl e)
    then show ?thesis by simp
  next
    case (Inr complete)
    show ?thesis
    proof (cases "select_unassigned_variable cw doms asg")
      case (Inl e)
      with Inr show ?thesis by (simp split: bool.splits)
    next
      case sel: (Inr variable)
      note un = select_unassigned_variable_unassigned [OF sel]
      have "backtrack_loop (backtrack_fuel n cw) cw variable ws doms asg \<noteq> None" for ws
      proof (rule backtrack_loop_total [OF backtrack_fuel_frame un(2)])
        fix word
        from unassigned_count_update [OF un] Suc.prems
        have "unassigned_count cw (AList.update variable word asg) < n"
          by (meson less_Suc_eq_le less_le_trans not_less)
        then show "backtrack_fuel n cw doms (AList.update variable word asg) \<noteq> None"
          by (rule Suc.IH)
      qed
      with Inr sel show ?thesis
        by (simp split: bool.splits sum.splits)
    qed
  qed
qed

lemma backtrack_loop_cong:
  assumes "frame_ok cw rec1" and "variable \<notin> set (dict_keys asg)"
    and "\<And>word. word \<in> set ws \<Longrightarrow>
           rec1 doms (AList.update variable word asg) = rec2 doms (AList.update variable word asg)"
  shows "backtrack_loop rec1 cw variable ws doms asg = backtrack_loop rec2 cw variable ws doms asg"
  using assms(3)
proof (induction ws)
  case Nil
  show ?case by simp
next
  case (Cons word ws)
  let ?asg1 = "AList.update variable word asg"
  have pop: "dict_pop ?asg1 variable = Inr asg"
    using assms(2) by (rule dict_pop_update)
  have IH: "backtrack_loop rec1 cw variable ws doms asg = backtrack_loop rec2 cw variable ws doms asg"
    by (rule Cons.IH) (simp add: Cons.prems)
  have eq: "rec1 doms ?asg1 = rec2 doms ?asg1"
    by (rule Cons.prems) simp
  show ?case
  proof (cases "rec1 doms ?asg1")
    case None
    with eq show ?thesis
      by (simp add: Let_def pop IH split: sum.splits bool.splits)
  next
    case (Some r)
    show ?thesis
    proof (cases r)
      case (Inl e)
      with Some eq show ?thesis
        by (simp add: Let_def pop IH split: sum.splits bool.splits)
    next
      case (Inr p)
      obtain doms1 result1 where p: "p = (doms1, result1)"
        by (cases p)
      from assms(1) Some Inr p have "doms1 = doms"
        and "assignment_complete cw result1 \<noteq> Inr True \<Longrightarrow> result1 = ?asg1"
        by (auto simp: frame_ok_def)
      with Some Inr p eq show ?thesis
        by (auto simp: Let_def pop IH split: sum.splits bool.splits)
    qed
  qed
qed

lemma backtrack_fuel_stable:
  "unassigned_count cw asg < n \<Longrightarrow>
   backtrack_fuel (Suc n) cw doms asg = backtrack_fuel n cw doms asg"
proof (induction n arbitrary: asg)
  case 0
  then show ?case by simp
next
  case (Suc n)
  have "backtrack_loop (backtrack_fuel (Suc n) cw) cw variable ws doms asg =
        backtrack_loop (backtrack_fuel n cw) cw variable ws doms asg"
    if sel: "select_unassigned_variable cw doms asg = Inr variable" for variable ws
  proof (rule backtrack_loop_cong [OF backtrack_fuel_frame])
    note un = select_unassigned_variable_unassigned [OF sel]
    show "variable \<notin> set (dict_keys asg)" by (rule un(2))
    fix word
    from unassigned_count_update [OF un] Suc.prems
    have "unassigned_count cw (AList.update variable word asg) < n"
      by (meson less_Suc_eq_le less_le_trans not_less)
    then show "backtrack_fuel (Suc n) cw doms (AList.update variable word asg) =
      backtrack_fuel n cw doms (AList.update variable word asg)"
      by (rule Suc.IH)
  qed
  then show ?case
    by (simp split: sum.splits bool.splits)
qed

lemma backtrack_fuel_enough:
  assumes "unassigned_count cw asg < n"
  shows "backtrack_fuel n cw doms asg = backtrack cw doms asg"
proof -
  have "backtrack_fuel (n + k) cw doms asg = backtrack_fuel n cw doms asg" for k
  proof (induction k)
    case 0
    show ?case by simp
  next
    case (Suc k)
    from assms have "unassigned_count cw asg < n + k" by simp
    from backtrack_fuel_stable [OF this] Suc show ?case by simp
  qed
  note indep = this
  have "unassigned_count cw asg < Suc (length (variables cw))"
    using unassigned_count_le [of cw asg] by simp
  have "backtrack_fuel (n + Suc (length (variables cw))) cw doms asg = backtrack_fuel n cw doms asg"
    by (rule indep)
  moreover have "backtrack_fuel (Suc (length (variables cw)) + n) cw doms asg
      = backtrack_fuel (Suc (length (variables cw))) cw doms asg"
  proof (induction n)
    case 0
    show ?case by simp
  next
    case (Suc m)
    have "unassigned_count cw asg < Suc (length (variables cw)) + m"
      using unassigned_count_le [of cw asg] by simp
    from backtrack_fuel_stable [OF this] Suc show ?case by simp
  qed
  ultimately show ?thesis
    by (simp add: backtrack_def add.commute)
qed

lemma backtrack_total: "backtrack cw doms asg \<noteq> None"
  unfolding backtrack_def
  using unassigned_count_le [of cw asg] by (intro backtrack_fuel_total) simp

lemma backtrack_frame: "frame_ok cw (backtrack cw)"
  using backtrack_fuel_frame [of cw "Suc (length (variables cw))"]
  by (simp add: frame_ok_def backtrack_def)

lemma backtrack_unfold:
  "backtrack cw doms asg =
     (case assignment_complete cw asg of
        Inl e \<Rightarrow> Some (Inl (e, doms, asg))
      | Inr True \<Rightarrow> Some (Inr (doms, asg))
      | Inr False \<Rightarrow>
          (case select_unassigned_variable cw doms asg of
             Inl e \<Rightarrow> Some (Inl (e, doms, asg))
           | Inr variable \<Rightarrow>
               (case candidate_words doms variable of
                  Inl e \<Rightarrow> Some (Inl (e, doms, asg))
                | Inr ws \<Rightarrow> backtrack_loop (backtrack cw) cw variable ws doms asg)))"
proof -
  have "backtrack_loop (backtrack_fuel (length (variables cw)) cw) cw variable ws doms asg =
        backtrack_loop (backtrack cw) cw variable ws doms asg"
    if sel: "select_unassigned_variable cw doms asg = Inr variable" for variable ws
  proof (rule backtrack_loop_cong [OF backtrack_fuel_frame])
    note un = select_unassigned_variable_unassigned [OF sel]
    show "variable \<notin> set (dict_keys asg)" by (rule un(2))
    fix word
    from unassigned_count_update [OF un] unassigned_count_le [of cw asg]
    have "unassigned_count cw (AList.update variable word asg) < length (variables cw)"
      by (rule less_le_trans)
    then show "backtrack_fuel (length (variables cw)) cw doms (AList.update variable word asg) =
      backtrack cw doms (AList.update variable word asg)"
      by (rule backtrack_fuel_enough)
  qed
  then show ?thesis
    by (simp add: backtrack_def split: sum.splits bool.splits)
qed










subsection \<open>The order in which backtracking tries the candidate words\<close>

text \<open>A candidate word for the selected slot fails when the extended assignment is
  rejected by \<^verbatim>\<open>consistent\<close>, or when the recursive call on it comes back without a
  complete assignment; it succeeds with \<open>result\<close> when the recursive call returns the
  complete assignment \<open>result\<close>.\<close>

definition candidate_fails ::
  "crossword \<Rightarrow> domains \<Rightarrow> assignment \<Rightarrow> variable \<Rightarrow> string \<Rightarrow> bool" where
  "candidate_fails cw doms asg variable word =
     (let asg1 = AList.update variable word asg in
      consistent cw asg1 = Inr False \<or>
      consistent cw asg1 = Inr True \<and> backtrack cw doms asg1 = Some (Inr (doms, asg1)) \<and>
        assignment_complete cw asg1 = Inr False)"

definition candidate_succeeds ::
  "crossword \<Rightarrow> domains \<Rightarrow> assignment \<Rightarrow> variable \<Rightarrow> string \<Rightarrow> assignment \<Rightarrow> bool" where
  "candidate_succeeds cw doms asg variable word result =
     (let asg1 = AList.update variable word asg in
      consistent cw asg1 = Inr True \<and> backtrack cw doms asg1 = Some (Inr (doms, result)) \<and>
        assignment_complete cw result = Inr True)"

text \<open>A domain store for the two crossing slots in which the first candidate of the
  across slot leads nowhere.\<close>

definition doms_retry :: domains where
  "doms_retry = [(slot_a, [''DOG'', ''ARC'']), (slot_b, [''CAT'', ''XYZ'', ''TOP''])]"

text \<open>The domain store of \<open>puzzle_order\<close> when the search starts.\<close>

definition doms_order :: domains where
  "doms_order =
     [(slot_a, [''ACE'', ''OWL'', ''CAT'', ''COT'']),
      (slot_b, [''ACE'', ''OWL'', ''CAT'', ''COT'', ''TOP''])]"

lemma backtrack_loop_first_success:
  assumes "frame_ok cw recurse" and "variable \<notin> set (dict_keys asg)"
    and "backtrack_loop recurse cw variable ws doms asg = Some (Inr (doms', result))"
    and "assignment_complete cw result = Inr True"
    and "assignment_complete cw asg \<noteq> Inr True"
  shows "\<exists>pre word post. ws = pre @ word # post \<and>
     (\<forall>w \<in> set pre.
        consistent cw (AList.update variable w asg) = Inr False \<or>
        consistent cw (AList.update variable w asg) = Inr True \<and>
        recurse doms (AList.update variable w asg) = Some (Inr (doms, AList.update variable w asg)) \<and>
        assignment_complete cw (AList.update variable w asg) = Inr False) \<and>
     consistent cw (AList.update variable word asg) = Inr True \<and>
     recurse doms (AList.update variable word asg) = Some (Inr (doms, result))"
    (is "\<exists>pre word post. ?P ws pre word post")
  using assms(3)
proof (induction ws)
  case Nil
  with assms(4,5) show ?case by simp
next
  case (Cons word ws)
  let ?asg1 = "AList.update variable word asg"
  have pop: "dict_pop ?asg1 variable = Inr asg"
    using assms(2) by (rule dict_pop_update)
  have later: "\<exists>pre word' post. ?P (word # ws) pre word' post"
    if rest: "backtrack_loop recurse cw variable ws doms asg = Some (Inr (doms', result))"
      and failed: "consistent cw ?asg1 = Inr False \<or>
        consistent cw ?asg1 = Inr True \<and>
        recurse doms ?asg1 = Some (Inr (doms, ?asg1)) \<and>
        assignment_complete cw ?asg1 = Inr False"
  proof -
    from Cons.IH [OF rest] obtain pre word' post where "?P ws pre word' post"
      by blast
    with failed have "?P (word # ws) (word # pre) word' post"
      by simp
    then show ?thesis by blast
  qed
  show ?case
  proof (cases "consistent cw ?asg1")
    case (Inl e)
    with Cons.prems show ?thesis by (simp add: Let_def)
  next
    case (Inr ok)
    show ?thesis
    proof (cases ok)
      case False
      with Inr pop Cons.prems
      have "backtrack_loop recurse cw variable ws doms asg = Some (Inr (doms', result))"
        by (simp add: Let_def)
      with Inr False show ?thesis by (intro later) simp_all
    next
      case True
      show ?thesis
      proof (cases "recurse doms ?asg1")
        case None
        with Inr True Cons.prems show ?thesis by (simp add: Let_def)
      next
        case (Some r)
        show ?thesis
        proof (cases r)
          case (Inl e)
          with Some Inr True Cons.prems show ?thesis by (simp add: Let_def)
        next
          case r: (Inr p)
          obtain doms1 result1 where p: "p = (doms1, result1)"
            by (cases p)
          from assms(1) Some r p have d1: "doms1 = doms"
            and r1: "assignment_complete cw result1 \<noteq> Inr True \<Longrightarrow> result1 = ?asg1"
            by (auto simp: frame_ok_def)
          show ?thesis
          proof (cases "assignment_complete cw result1")
            case (Inl e)
            with Some r p Inr True Cons.prems show ?thesis by (simp add: Let_def)
          next
            case c: (Inr complete)
            show ?thesis
            proof (cases complete)
              case True
              with c Some r p Inr \<open>ok\<close> Cons.prems d1 have "result = result1"
                by (simp add: Let_def)
              with Some r p d1 Inr \<open>ok\<close> have "?P (word # ws) [] word ws"
                by simp
              then show ?thesis by blast
            next
              case False
              with c r1 have same: "result1 = ?asg1" by simp
              with c False Some r p Inr \<open>ok\<close> Cons.prems d1 pop
              have "backtrack_loop recurse cw variable ws doms asg = Some (Inr (doms', result))"
                by (simp add: Let_def)
              with Inr \<open>ok\<close> Some r p d1 same c False show ?thesis
                by (intro later) simp_all
            qed
          qed
        qed
      qed
    qed
  qed
qed


text \<open>
  C5, as amended. In every step of \<^verbatim>\<open>backtrack\<close> the candidate words of the selected
  slot are tried in the iteration order of that slot's domain (\<^verbatim>\<open>order_domain_values\<close>
  is not consulted): when a step returns a complete assignment, that assignment is the
  result of the recursive call for the first word of the domain, in its iteration order,
  that does not fail, and every word before it has failed.
\<close>

theorem backtrack_tries_domain_order:
  assumes "assignment_complete cw asg = Inr False"
    and "select_unassigned_variable cw doms asg = Inr variable"
    and "candidate_words doms variable = Inr ws"
    and "backtrack cw doms asg = Some (Inr (doms', result))"
    and "assignment_complete cw result = Inr True"
  shows "\<exists>pre word post. ws = pre @ word # post \<and>
     list_all (candidate_fails cw doms asg variable) pre \<and>
     candidate_succeeds cw doms asg variable word result"
proof -
  from assms(1-4) have loop:
    "backtrack_loop (backtrack cw) cw variable ws doms asg = Some (Inr (doms', result))"
    by (simp add: backtrack_unfold [of cw doms asg])
  from assms(1) have "assignment_complete cw asg \<noteq> Inr True"
    by simp
  from backtrack_loop_first_success [OF backtrack_frame
      select_unassigned_variable_unassigned(2) [OF assms(2)] loop assms(5) this]
  show ?thesis
    using assms(5) by (simp add: candidate_fails_def candidate_succeeds_def list_all_iff Let_def)
qed


text \<open>With the domains \<open>{DOG, ARC}\<close> and \<open>{CAT, XYZ, TOP}\<close>: \<open>DOG\<close> is tried first
  and fails, \<open>ARC\<close> succeeds.\<close>

theorem backtrack_tries_domain_order_witness:
  "assignment_complete puzzle_cross [] = Inr False \<and>
   select_unassigned_variable puzzle_cross doms_retry [] = Inr slot_a \<and>
   candidate_words doms_retry slot_a = Inr [''DOG'', ''ARC''] \<and>
   backtrack puzzle_cross doms_retry [] =
     Some (Inr (doms_retry, [(slot_a, ''ARC''), (slot_b, ''CAT'')])) \<and>
   assignment_complete puzzle_cross [(slot_a, ''ARC''), (slot_b, ''CAT'')] = Inr True \<and>
   (\<exists>pre word post. [''DOG'', ''ARC''] = pre @ word # post \<and>
      list_all (candidate_fails puzzle_cross doms_retry [] slot_a) pre \<and>
      candidate_succeeds puzzle_cross doms_retry [] slot_a word
        [(slot_a, ''ARC''), (slot_b, ''CAT'')])"
proof -
  have 1: "assignment_complete puzzle_cross [] = Inr False"
    by code_simp
  have 2: "select_unassigned_variable puzzle_cross doms_retry [] = Inr slot_a"
    by code_simp
  have 3: "candidate_words doms_retry slot_a = Inr [''DOG'', ''ARC'']"
    by code_simp
  have 4: "backtrack puzzle_cross doms_retry [] =
     Some (Inr (doms_retry, [(slot_a, ''ARC''), (slot_b, ''CAT'')]))"
    by code_simp
  have 5: "assignment_complete puzzle_cross [(slot_a, ''ARC''), (slot_b, ''CAT'')] = Inr True"
    by code_simp
  from backtrack_tries_domain_order [OF 1 2 3 4 5] 1 2 3 4 5
  show ?thesis
    by blast
qed

text \<open>
  C5 as stated fails on \<open>puzzle_order\<close> (two crossing slots, words
  \<open>{ACE, OWL, CAT, COT, TOP}\<close>). When the search starts, the across slot is selected;
  its domain is iterated as \<open>ACE, OWL, CAT, COT\<close>, while \<^verbatim>\<open>order_domain_values\<close> puts
  \<open>OWL\<close> first. \<^verbatim>\<open>solve\<close> returns the assignment with \<open>ACE\<close>, although \<open>OWL\<close>, tried
  first, would have succeeded with another one.
\<close>

theorem backtrack_ignores_order_domain_values:
  "snd (ac3 puzzle_order (enforce_node_consistency (init_domains puzzle_order)) None) = doms_order \<and>
   select_unassigned_variable puzzle_order doms_order [] = Inr slot_a \<and>
   candidate_words doms_order slot_a = Inr [''ACE'', ''OWL'', ''CAT'', ''COT''] \<and>
   order_domain_values puzzle_order doms_order slot_a [] = Inr [''OWL'', ''ACE'', ''CAT'', ''COT''] \<and>
   candidate_words doms_order slot_a \<noteq> order_domain_values puzzle_order doms_order slot_a [] \<and>
   solve puzzle_order = Some (Inr (Some [(slot_a, ''ACE''), (slot_b, ''CAT'')])) \<and>
   candidate_succeeds puzzle_order doms_order [] slot_a ''OWL''
     [(slot_a, ''OWL''), (slot_b, ''COT'')]"
  by code_simp

subsection \<open>The assignment validator\<close>

text \<open>The three conditions on a (possibly partial) assignment. Two assigned neighboring
  slots agree when their overlap is recorded as \<open>(i, j)\<close>, the words reach these
  positions, and the two letters are the same. The words are pairwise distinct when there
  are as many distinct assigned words as assigned slots.\<close>

definition lengths_match :: "assignment \<Rightarrow> bool" where
  "lengths_match asg = list_all (\<lambda>(variable, word). length word = var_length variable) asg"

definition agree_at :: "(nat \<times> nat) option \<Rightarrow> string \<Rightarrow> string \<Rightarrow> bool" where
  "agree_at ov word nword =
     (case ov of
        None \<Rightarrow> False
      | Some (i, j) \<Rightarrow> i < length word \<and> j < length nword \<and> word ! i = nword ! j)"

definition neighbor_agrees :: "crossword \<Rightarrow> assignment \<Rightarrow> variable \<Rightarrow> string \<Rightarrow> variable \<Rightarrow> bool" where
  "neighbor_agrees cw asg variable word neighbor =
     (case map_of asg neighbor of
        None \<Rightarrow> True
      | Some nword \<Rightarrow> agree_at (overlaps cw (variable, neighbor)) word nword)"

definition overlaps_agree :: "crossword \<Rightarrow> assignment \<Rightarrow> bool" where
  "overlaps_agree cw asg =
     list_all (\<lambda>(variable, word).
        list_all (neighbor_agrees cw asg variable word) (neighbors cw variable)) asg"

definition words_distinct :: "assignment \<Rightarrow> bool" where
  "words_distinct asg \<longleftrightarrow> card (set (map snd asg)) = length asg"

text \<open>The words of one assigned slot pass the checks of the loop of \<^verbatim>\<open>consistent\<close>.\<close>

definition slot_ok :: "crossword \<Rightarrow> assignment \<Rightarrow> variable \<Rightarrow> bool" where
  "slot_ok cw asg variable =
     (case map_of asg variable of
        None \<Rightarrow> False
      | Some word \<Rightarrow>
          length word = var_length variable \<and>
          list_all (neighbor_agrees cw asg variable word) (neighbors cw variable))"

text \<open>Agreement of the letters alone, without the bounds on the indices.\<close>

definition letters_agree :: "crossword \<Rightarrow> assignment \<Rightarrow> bool" where
  "letters_agree cw asg =
     list_all (\<lambda>(variable, word).
        list_all (\<lambda>neighbor.
           case map_of asg neighbor of
             None \<Rightarrow> True
           | Some nword \<Rightarrow>
               (case overlaps cw (variable, neighbor) of
                  None \<Rightarrow> True
                | Some (i, j) \<Rightarrow> word ! i = nword ! j))
          (neighbors cw variable)) asg"


lemma in_dict_keys: "k \<in> set (dict_keys d) \<longleftrightarrow> map_of d k \<noteq> None"
  by (simp add: dict_keys_def map_of_eq_None_iff)

lemma consistent_neighbors_iff:
  assumes "map_of asg variable = Some vword"
  shows "consistent_neighbors cw asg variable ns = Inr True \<longleftrightarrow>
         list_all (neighbor_agrees cw asg variable vword) ns"
proof (induction ns)
  case Nil
  show ?case by simp
next
  case (Cons n ns)
  show ?case
  proof (cases "map_of asg n")
    case None
    with Cons show ?thesis
      by (simp add: in_dict_keys neighbor_agrees_def)
  next
    case (Some nword)
    with Cons assms show ?thesis
      by (auto simp: in_dict_keys neighbor_agrees_def agree_at_def dict_get_def str_index_def
          split: option.splits)
  qed
qed

lemma consistent_loop_iff:
  "consistent_loop cw asg seen rest = Inr True \<longleftrightarrow>
     list_all (slot_ok cw asg) rest \<and>
     length (foldl (\<lambda>s v. List.insert (the (map_of asg v)) s) seen rest) = length (dict_keys asg)"
proof (induction rest arbitrary: seen)
  case Nil
  show ?case by simp
next
  case (Cons v rest)
  show ?case
  proof (cases "map_of asg v")
    case None
    then show ?thesis
      by (simp add: dict_get_def slot_ok_def)
  next
    case (Some word)
    show ?thesis
    proof (cases "length word = var_length v")
      case False
      with Some show ?thesis
        by (simp add: dict_get_def slot_ok_def)
    next
      case True
      show ?thesis
      proof (cases "consistent_neighbors cw asg v (neighbors cw v)")
        case (Inl e)
        with consistent_neighbors_iff [OF Some, of cw "neighbors cw v"] Some True
        show ?thesis
          by (simp add: dict_get_def slot_ok_def)
      next
        case (Inr ok)
        with consistent_neighbors_iff [OF Some, of cw "neighbors cw v"] Some True Cons [of "List.insert word seen"]
        show ?thesis
          by (cases ok) (simp_all add: dict_get_def slot_ok_def)
      qed
    qed
  qed
qed

lemma foldl_insert_set:
  "set (foldl (\<lambda>s v. List.insert (f v) s) seen rest) = set seen \<union> f ` set rest"
  by (induction rest arbitrary: seen) auto

lemma foldl_insert_distinct:
  "distinct seen \<Longrightarrow> distinct (foldl (\<lambda>s v. List.insert (f v) s) seen rest)"
  by (induction rest arbitrary: seen) auto

lemma words_of_keys:
  assumes "distinct (dict_keys asg)"
  shows "(\<lambda>v. the (map_of asg v)) ` set (dict_keys asg) = set (map snd asg)"
proof -
  have "the (map_of asg (fst p)) = snd p" if "p \<in> set asg" for p
    using assms that by (cases p) (simp add: dict_keys_def)
  then show ?thesis
    by (force simp: dict_keys_def image_iff)
qed

lemma all_slots_ok:
  assumes "distinct (dict_keys asg)"
  shows "list_all (slot_ok cw asg) (dict_keys asg) \<longleftrightarrow> lengths_match asg \<and> overlaps_agree cw asg"
proof -
  have "map_of asg v = Some w" if "(v, w) \<in> set asg" for v w
    using assms that by (simp add: dict_keys_def)
  then show ?thesis
    by (fastforce simp: list_all_iff slot_ok_def lengths_match_def overlaps_agree_def dict_keys_def)
qed


lemma consistent_accepts_iff:
  assumes "distinct (dict_keys asg)"
  shows "consistent cw asg = Inr True \<longleftrightarrow>
         lengths_match asg \<and> overlaps_agree cw asg \<and> words_distinct asg"
proof -
  let ?seen = "foldl (\<lambda>s v. List.insert (the (map_of asg v)) s) [] (dict_keys asg)"
  have "distinct ?seen"
    by (rule foldl_insert_distinct) simp
  then have "length ?seen = card (set ?seen)"
    by (simp add: distinct_card)
  also have "set ?seen = set (map snd asg)"
    by (simp only: foldl_insert_set words_of_keys [OF assms]) simp
  finally have "length ?seen = length (dict_keys asg) \<longleftrightarrow> words_distinct asg"
    by (simp add: words_distinct_def dict_keys_def)
  with all_slots_ok [OF assms, of cw] show ?thesis
    by (auto simp: consistent_def consistent_loop_iff)
qed

text \<open>
  C7. For every (possibly partial) assignment, \<^verbatim>\<open>consistent\<close> returns \<open>True\<close> if and
  only if every assigned word has the length of its slot, every pair of assigned
  neighboring slots agrees at the recorded overlap indices, and the assigned words are
  pairwise distinct. (The hypothesis says that the association list is a dictionary: no
  slot has two entries.)
\<close>

theorem consistent_iff:
  assumes "distinct (dict_keys asg)"
  shows "consistent cw asg = Inr True \<longleftrightarrow>
         lengths_match asg \<and> overlaps_agree cw asg \<and> words_distinct asg"
  using assms by (rule consistent_accepts_iff)

text \<open>The two crossing slots with \<open>ARC\<close> across and \<open>CAT\<close> down.\<close>

theorem consistent_iff_witness:
  "distinct (dict_keys [(slot_a, ''ARC''), (slot_b, ''CAT'')]) \<and>
   consistent puzzle_cross [(slot_a, ''ARC''), (slot_b, ''CAT'')] = Inr True \<and>
   lengths_match [(slot_a, ''ARC''), (slot_b, ''CAT'')] \<and>
   overlaps_agree puzzle_cross [(slot_a, ''ARC''), (slot_b, ''CAT'')] \<and>
   words_distinct [(slot_a, ''ARC''), (slot_b, ''CAT'')]"
proof -
  have keys: "distinct (dict_keys [(slot_a, ''ARC''), (slot_b, ''CAT'')])"
    by code_simp
  have accepted: "consistent puzzle_cross [(slot_a, ''ARC''), (slot_b, ''CAT'')] = Inr True"
    by code_simp
  from consistent_iff [OF keys, of puzzle_cross] keys accepted
  show ?thesis
    by simp
qed

text \<open>Under the invariant of the structural model, and for words of the right lengths,
  the bounds on the indices hold by themselves: agreement is agreement of the letters.\<close>

lemma overlaps_agree_letters:
  assumes wf: "wf_crossword cw" and keys: "set (dict_keys asg) \<subseteq> set (variables cw)"
    and len: "lengths_match asg"
  shows "overlaps_agree cw asg \<longleftrightarrow> letters_agree cw asg"
proof -
  have "neighbor_agrees cw asg v w n \<longleftrightarrow>
      (case map_of asg n of
         None \<Rightarrow> True
       | Some nword \<Rightarrow>
           (case overlaps cw (v, n) of None \<Rightarrow> True | Some (i, j) \<Rightarrow> w ! i = nword ! j))"
    if vw: "(v, w) \<in> set asg" and n: "n \<in> set (neighbors cw v)" for v w n
  proof (cases "map_of asg n")
    case None
    then show ?thesis by (simp add: neighbor_agrees_def)
  next
    case (Some nword)
    then have "(n, nword) \<in> set asg"
      by (rule map_of_SomeD)
    with len vw have lens: "length w = var_length v" "length nword = var_length n"
      by (auto simp: lengths_match_def list_all_iff)
    from vw keys have v: "v \<in> set (variables cw)"
      by (force simp: dict_keys_def)
    from n have nv: "n \<in> set (variables cw)" and ov: "overlaps cw (n, v) \<noteq> None"
      by (auto simp: neighbors_def)
    from ov obtain i j where ij: "overlaps cw (n, v) = Some (i, j)"
      by auto
    with wf nv v have "overlaps cw (v, n) = Some (j, i) \<and> i < var_length n \<and> j < var_length v"
      by (fastforce simp: wf_crossword_def)
    with Some lens show ?thesis
      by (simp add: neighbor_agrees_def agree_at_def)
  qed
  then show ?thesis
    unfolding overlaps_agree_def letters_agree_def list_all_iff
    by (intro ball_cong refl) (auto simp del: split_paired_All)
qed

lemma consistent_iff_letters:
  assumes "wf_crossword cw" and "distinct (dict_keys asg)"
    and "set (dict_keys asg) \<subseteq> set (variables cw)"
  shows "consistent cw asg = Inr True \<longleftrightarrow>
         lengths_match asg \<and> letters_agree cw asg \<and> words_distinct asg"
  using consistent_accepts_iff [OF assms(2), of cw] overlaps_agree_letters [OF assms(1,3)]
  by blast

subsection \<open>What \<^verbatim>\<open>solve\<close> returns when propagation fails\<close>

text \<open>Two crossing slots and two words, neither of which can stand in the across slot:
  \<^verbatim>\<open>ac3\<close> empties its domain.\<close>

definition puzzle_clash :: crossword where
  "puzzle_clash =
     \<lparr>variables = [slot_a, slot_b], overlaps = crossing, words = [''CAT'', ''DOG'']\<rparr>"

definition doms_clash :: domains where
  "doms_clash = [(slot_a, []), (slot_b, [''CAT'', ''DOG''])]"

text \<open>Every entry of the assignment a search returns was in the assignment it started
  from, or is a word of its slot's domain.\<close>

definition from_domains :: "domains \<Rightarrow> assignment \<Rightarrow> assignment \<Rightarrow> bool" where
  "from_domains doms asg result \<longleftrightarrow>
     (\<forall>(v, w) \<in> set result. (v, w) \<in> set asg \<or> (\<exists>ws. dict_get doms v = Inr ws \<and> w \<in> set ws))"

definition picks_from_domains :: "(domains \<Rightarrow> assignment \<Rightarrow> search_result) \<Rightarrow> bool" where
  "picks_from_domains recurse \<longleftrightarrow>
     (\<forall>doms asg doms' result. recurse doms asg = Some (Inr (doms', result)) \<longrightarrow>
        from_domains doms asg result)"

text \<open>When \<^verbatim>\<open>ac3\<close> returns \<open>False\<close>, the domain of one of the slots is empty.\<close>

lemma requeued_fst:
  "fst ` set (requeued cw arcs) \<subseteq> fst ` set arcs \<union> set (variables cw)"
  by (auto simp: requeued_def neighbors_def dest: in_set_butlastD)

lemma ac3_loop_failure_empties:
  "ac3_loop cw doms arcs = (Inr False, doms') \<Longrightarrow>
   \<exists>x \<in> fst ` set arcs \<union> set (variables cw). dict_get doms' x = Inr []"
proof (induction cw doms arcs rule: ac3_loop_induct2)
  case (step cw doms arcs)
  show ?case
  proof (cases rule: ac3_loop_cases [of arcs cw doms])
    case empty
    with step.prems show ?thesis by simp
  next
    case (error e)
    with step.prems show ?thesis by simp
  next
    case unrevised
    with step.prems step.IH(1) obtain x where
      "x \<in> fst ` set (butlast arcs) \<union> set (variables cw)" "dict_get doms' x = Inr []"
      by auto
    then show ?thesis
      by (auto dest: in_set_butlastD)
  next
    case emptied
    with step.prems have "dict_get doms' (fst (last arcs)) = Inr []"
      by simp
    moreover from emptied(1) have "fst (last arcs) \<in> fst ` set arcs"
      by simp
    ultimately show ?thesis by blast
  next
    case (revised ws)
    with step.prems step.IH(2) obtain x where
      "x \<in> fst ` set (requeued cw arcs) \<union> set (variables cw)" "dict_get doms' x = Inr []"
      by auto
    with requeued_fst [of cw arcs] show ?thesis
      by blast
  qed
qed

lemma initial_arcs_fst: "fst ` set (initial_arcs cw) \<subseteq> set (variables cw)"
proof -
  have inner: "fst ` set (foldl (\<lambda>arcs var2.
           if var \<noteq> var2 \<and> (var2, var) \<notin> set arcs then arcs @ [(var, var2)] else arcs)
          arcs vs) \<subseteq> S"
    if "fst ` set arcs \<subseteq> S" "var \<in> S" for var arcs vs and S :: "variable set"
    using that by (induction vs arbitrary: arcs) auto
  have outer: "fst ` set (foldl (\<lambda>arcs var.
        foldl (\<lambda>arcs var2.
           if var \<noteq> var2 \<and> (var2, var) \<notin> set arcs then arcs @ [(var, var2)] else arcs)
          arcs vs2) arcs vs) \<subseteq> S"
    if "fst ` set arcs \<subseteq> S" "set vs \<subseteq> S" for arcs vs vs2 and S :: "variable set"
    using that
  proof (induction vs arbitrary: arcs)
    case Nil
    then show ?case by simp
  next
    case (Cons v vs)
    from Cons.prems have "fst ` set (foldl (\<lambda>arcs var2.
           if v \<noteq> var2 \<and> (var2, v) \<notin> set arcs then arcs @ [(v, var2)] else arcs)
          arcs vs2) \<subseteq> S"
      by (intro inner) auto
    with Cons.prems show ?case
      by (simp add: Cons.IH)
  qed
  show ?thesis
    unfolding initial_arcs_def by (rule outer) simp_all
qed

lemma ac3_failure_empties:
  assumes "ac3 cw doms None = (Inr False, doms')"
  shows "\<exists>x \<in> set (variables cw). dict_get doms' x = Inr []"
  using ac3_loop_failure_empties [of cw doms "initial_arcs cw" doms'] assms initial_arcs_fst [of cw]
  by (auto simp: ac3_def)

text \<open>A search that starts from the empty assignment cannot complete the puzzle when the
  domain of some slot is empty.\<close>

lemma set_update_subset: "set (AList.update k v d) \<subseteq> insert (k, v) (set d)"
  by (induction d) auto

lemma backtrack_loop_from_domains:
  assumes "frame_ok cw recurse" and "picks_from_domains recurse"
    and "variable \<notin> set (dict_keys asg)"
    and "dict_get doms variable = Inr all_ws" and "set ws \<subseteq> set all_ws"
    and "backtrack_loop recurse cw variable ws doms asg = Some (Inr (doms', result))"
  shows "from_domains doms asg result"
  using assms(5,6)
proof (induction ws)
  case Nil
  then show ?case by (auto simp: from_domains_def)
next
  case (Cons word ws)
  let ?asg1 = "AList.update variable word asg"
  have pop: "dict_pop ?asg1 variable = Inr asg"
    using assms(3) by (rule dict_pop_update)
  from Cons.prems have ws: "set ws \<subseteq> set all_ws" and word: "word \<in> set all_ws"
    by auto
  note IH = Cons.IH [OF ws]
  show ?case
  proof (cases "consistent cw ?asg1")
    case (Inl e)
    with Cons.prems show ?thesis by (simp add: Let_def)
  next
    case (Inr ok)
    show ?thesis
    proof (cases ok)
      case False
      with Inr pop Cons.prems show ?thesis
        by (intro IH) (simp add: Let_def)
    next
      case True
      show ?thesis
      proof (cases "recurse doms ?asg1")
        case None
        with Inr True Cons.prems show ?thesis by (simp add: Let_def)
      next
        case (Some r)
        show ?thesis
        proof (cases r)
          case (Inl e)
          with Some Inr True Cons.prems show ?thesis by (simp add: Let_def)
        next
          case r: (Inr p)
          obtain doms1 result1 where p: "p = (doms1, result1)"
            by (cases p)
          from assms(1) Some r p have d1: "doms1 = doms"
            and r1: "assignment_complete cw result1 \<noteq> Inr True \<Longrightarrow> result1 = ?asg1"
            by (auto simp: frame_ok_def)
          from assms(2) Some r p have fd: "from_domains doms ?asg1 result1"
            by (auto simp: picks_from_domains_def)
          show ?thesis
          proof (cases "assignment_complete cw result1")
            case (Inl e)
            with Some r p Inr True Cons.prems show ?thesis by (simp add: Let_def)
          next
            case c: (Inr complete)
            show ?thesis
            proof (cases complete)
              case True
              with c Some r p Inr \<open>ok\<close> Cons.prems d1 have "result = result1"
                by (simp add: Let_def)
              with fd set_update_subset [of variable word asg] assms(4) word
              show ?thesis
                unfolding from_domains_def by fastforce
            next
              case False
              with c r1 have "result1 = ?asg1" by simp
              with c False Some r p Inr \<open>ok\<close> Cons.prems d1 pop show ?thesis
                by (intro IH) (simp add: Let_def)
            qed
          qed
        qed
      qed
    qed
  qed
qed

lemma backtrack_fuel_from_domains: "picks_from_domains (backtrack_fuel n cw)"
proof (induction n)
  case 0
  show ?case by (simp add: picks_from_domains_def)
next
  case (Suc n)
  show ?case
    unfolding picks_from_domains_def
  proof (intro allI impI)
    fix doms asg doms' result
    assume *: "backtrack_fuel (Suc n) cw doms asg = Some (Inr (doms', result))"
    show "from_domains doms asg result"
    proof (cases "assignment_complete cw asg")
      case (Inl e)
      with * show ?thesis by simp
    next
      case (Inr complete)
      show ?thesis
      proof (cases complete)
        case True
        with Inr * show ?thesis by (auto simp: from_domains_def)
      next
        case False
        with Inr * obtain variable ws where
          sel: "select_unassigned_variable cw doms asg = Inr variable"
          and ws: "dict_get doms variable = Inr ws"
          and loop: "backtrack_loop (backtrack_fuel n cw) cw variable ws doms asg = Some (Inr (doms', result))"
          by (auto simp: candidate_words_def split: sum.splits)
        from backtrack_fuel_frame Suc select_unassigned_variable_unassigned(2) [OF sel] ws _ loop
        show ?thesis by (rule backtrack_loop_from_domains) simp
      qed
    qed
  qed
qed

lemma remove_assigned_covers:
  "remove_assigned vs ks = Inr rest \<Longrightarrow> set vs \<subseteq> set rest \<union> set ks"
proof (induction ks arbitrary: vs)
  case Nil
  then show ?case by simp
next
  case (Cons k ks)
  from Cons.prems have "remove_assigned (removeAll k vs) ks = Inr rest"
    by (simp split: if_splits)
  from Cons.IH [OF this] show ?case
    by auto
qed

lemma assignment_complete_covers:
  assumes "assignment_complete cw result = Inr True"
  shows "set (variables cw) \<subseteq> set (dict_keys result)"
proof -
  from assms obtain rest where "remove_assigned (variables cw) (dict_keys result) = Inr rest"
    and "rest = []"
    by (auto simp: assignment_complete_def split: sum.splits if_splits)
  with remove_assigned_covers show ?thesis
    by fastforce
qed

lemma backtrack_needs_words:
  assumes "backtrack cw doms [] = Some (Inr (doms', result))"
    and "x \<in> set (variables cw)" and "dict_get doms x = Inr []"
  shows "assignment_complete cw result \<noteq> Inr True"
proof
  assume "assignment_complete cw result = Inr True"
  from assignment_complete_covers [OF this] assms(2) obtain w where "(x, w) \<in> set result"
    by (auto simp: dict_keys_def)
  moreover from assms(1) have "from_domains doms [] result"
    using backtrack_fuel_from_domains [of "Suc (length (variables cw))" cw]
    by (simp add: picks_from_domains_def backtrack_def)
  ultimately show False
    using assms(3) by (auto simp: from_domains_def)
qed


text \<open>When \<^verbatim>\<open>ac3\<close> has returned \<open>False\<close>, the search that \<^verbatim>\<open>solve\<close> goes on to run
  comes back, and what \<^verbatim>\<open>solve\<close> returns is never a complete assignment: there is no
  solution to report.\<close>

lemma solve_after_failed_ac3:
  assumes "ac3 cw (enforce_node_consistency (init_domains cw)) None = (Inr False, doms)"
  shows "solve cw =
           (case backtrack cw doms [] of
              None \<Rightarrow> None
            | Some (Inl (e, doms2, asg2)) \<Rightarrow> Some (Inl e)
            | Some (Inr (doms2, result)) \<Rightarrow> Some (Inr (Some result))) \<and>
         solve cw \<noteq> None \<and>
         (\<forall>result. solve cw = Some (Inr (Some result)) \<longrightarrow>
            assignment_complete cw result \<noteq> Inr True)"
proof -
  from assms have eq: "solve cw =
           (case backtrack cw doms [] of
              None \<Rightarrow> None
            | Some (Inl (e, doms2, asg2)) \<Rightarrow> Some (Inl e)
            | Some (Inr (doms2, result)) \<Rightarrow> Some (Inr (Some result)))"
    by (simp add: solve_def Let_def)
  from ac3_failure_empties [OF assms] obtain x where
    x: "x \<in> set (variables cw)" "dict_get doms x = Inr []"
    by blast
  have "assignment_complete cw result \<noteq> Inr True" if "solve cw = Some (Inr (Some result))" for result
  proof -
    from that eq obtain doms2 where "backtrack cw doms [] = Some (Inr (doms2, result))"
      by (auto split: option.splits sum.splits)
    then show ?thesis
      using x by (rule backtrack_needs_words)
  qed
  moreover from eq backtrack_total [of cw doms "[]"] have "solve cw \<noteq> None"
    by (auto split: option.splits sum.splits)
  ultimately show ?thesis
    using eq by blast
qed

text \<open>
  C2. Whenever AC-3 propagation fails, \<^verbatim>\<open>solve\<close> should report the no-solution outcome
  at once. On \<open>puzzle_clash\<close> (two crossing slots, words \<open>{CAT, DOG}\<close>) \<^verbatim>\<open>ac3\<close>
  empties the domain of the across slot and returns \<open>False\<close>; \<^verbatim>\<open>solve\<close> drops that
  flag, runs \<^verbatim>\<open>backtrack\<close>, which finds nothing, and returns the empty dictionary: not
  \<^verbatim>\<open>None\<close>, the no-solution outcome, and not a complete assignment.
\<close>

theorem solve_after_failed_ac3_returns_empty_dict:
  "ac3 puzzle_clash (enforce_node_consistency (init_domains puzzle_clash)) None =
     (Inr False, doms_clash) \<and>
   backtrack puzzle_clash doms_clash [] = Some (Inr (doms_clash, [])) \<and>
   solve puzzle_clash = Some (Inr (Some [])) \<and>
   assignment_complete puzzle_clash [] = Inr False"
  by code_simp

subsection \<open>Slot selection during search\<close>

text \<open>The state of the first loop of \<^verbatim>\<open>select_unassigned_variable\<close>: as long as no
  unassigned slot has been met \<open>shortest\<close> is \<^verbatim>\<open>None\<close>, afterwards it is the size of the
  domain of one of the unassigned slots met.\<close>

definition scan_ok :: "domains \<Rightarrow> nat option \<Rightarrow> variable list \<Rightarrow> bool" where
  "scan_ok doms shortest unassigned \<longleftrightarrow>
     (unassigned = [] \<and> shortest = None) \<or>
     (\<exists>v \<in> set unassigned. \<exists>ws. map_of doms v = Some ws \<and> shortest = Some (length ws))"

text \<open>
  The second half of C10 holds: when the domain store has an entry for every slot and
  some slot is unassigned, \<^verbatim>\<open>select_unassigned_variable\<close> does not raise. These are the
  states in which the search calls it: \<^verbatim>\<open>backtrack\<close> selects a slot only after
  \<^verbatim>\<open>assignment_complete\<close> has returned \<open>False\<close>, and it is called on the empty
  assignment or on one that \<^verbatim>\<open>consistent\<close> has accepted.
\<close>

lemma select_scan_returns:
  assumes "set vs \<subseteq> set (dict_keys doms)" and "scan_ok doms shortest unassigned"
  shows "\<exists>shortest' unassigned'.
     select_scan doms asg vs shortest unassigned = Inr (shortest', unassigned') \<and>
     scan_ok doms shortest' unassigned' \<and>
     set unassigned \<union> (set vs - set (dict_keys asg)) \<subseteq> set unassigned'"
  using assms
proof (induction vs arbitrary: shortest unassigned)
  case Nil
  then show ?case by simp
next
  case (Cons v vs)
  from Cons.prems(1) obtain ws where ws: "map_of doms v = Some ws"
    by (auto simp: in_dict_keys)
  show ?case
  proof (cases "v \<in> set (dict_keys asg)")
    case True
    with Cons.IH [of shortest unassigned] Cons.prems show ?thesis
      by auto
  next
    case False
    let ?sh = "case shortest of
                  None \<Rightarrow> Some (length ws)
                | Some s \<Rightarrow>
                    if s = 0 then Some (length ws)
                    else if length ws < s then Some (length ws)
                    else Some s"
    from Cons.prems(2) ws have "scan_ok doms ?sh (unassigned @ [v])"
      by (auto simp: scan_ok_def split: option.splits)
    with Cons.IH [of ?sh "unassigned @ [v]"] Cons.prems(1) False ws show ?thesis
      by (auto simp: dict_get_def)
  qed
qed

lemma best_vars_returns:
  assumes "set unassigned \<subseteq> set (dict_keys doms)"
  shows "\<exists>bestVars. best_vars cw doms shortest unassigned = Inr bestVars \<and>
     (\<forall>v \<in> set unassigned. \<forall>ws. map_of doms v = Some ws \<and> shortest = Some (length ws)
        \<longrightarrow> v \<in> fst ` set bestVars)"
  using assms
proof (induction unassigned)
  case Nil
  show ?case by simp
next
  case (Cons v vs)
  from Cons.prems obtain ws where ws: "map_of doms v = Some ws"
    by (auto simp: in_dict_keys)
  from Cons obtain bestVars where "best_vars cw doms shortest vs = Inr bestVars"
    and "\<forall>v \<in> set vs. \<forall>ws. map_of doms v = Some ws \<and> shortest = Some (length ws)
        \<longrightarrow> v \<in> fst ` set bestVars"
    by auto
  with ws show ?case
    by (auto simp: dict_get_def)
qed

lemma select_unassigned_variable_returns:
  assumes keys: "set (variables cw) \<subseteq> set (dict_keys doms)"
    and open_slot: "v \<in> set (variables cw)" "v \<notin> set (dict_keys asg)"
  shows "\<exists>variable. select_unassigned_variable cw doms asg = Inr variable"
proof -
  have "scan_ok doms None []"
    by (simp add: scan_ok_def)
  from select_scan_returns [OF keys this, of asg] obtain shortest unassigned where
    scan: "select_scan doms asg (variables cw) None [] = Inr (shortest, unassigned)"
    and ok: "scan_ok doms shortest unassigned"
    and sub: "set (variables cw) - set (dict_keys asg) \<subseteq> set unassigned"
    by auto
  from sub open_slot have "unassigned \<noteq> []"
    by auto
  with ok obtain u ws where u: "u \<in> set unassigned" "map_of doms u = Some ws"
    "shortest = Some (length ws)"
    by (auto simp: scan_ok_def)
  from select_scan_unassigned [OF scan] keys have "set unassigned \<subseteq> set (dict_keys doms)"
    by auto
  from best_vars_returns [OF this, of cw shortest] u obtain bestVars where
    best: "best_vars cw doms shortest unassigned = Inr bestVars" and "u \<in> fst ` set bestVars"
    by blast
  then have "bestVars \<noteq> []"
    by auto
  then have "rev (sort_key snd bestVars) \<noteq> []"
    by (metis length_0_conv length_rev length_sort)
  with scan best show ?thesis
    by (auto simp: select_unassigned_variable_def split: list.splits)
qed

lemma remove_assigned_rest:
  "remove_assigned vs ks = Inr rest \<Longrightarrow> set rest = set vs - set ks"
proof (induction ks arbitrary: vs)
  case Nil
  then show ?case by simp
next
  case (Cons k ks)
  from Cons.prems have "remove_assigned (removeAll k vs) ks = Inr rest"
    by (simp split: if_splits)
  from Cons.IH [OF this] show ?case
    by auto
qed

lemma select_safe_in_search:
  assumes "set (variables cw) \<subseteq> set (dict_keys doms)"
    and "assignment_complete cw asg = Inr False" and "consistent cw asg = Inr True"
  shows "\<exists>variable. select_unassigned_variable cw doms asg = Inr variable"
proof -
  from assms(2,3) obtain rest where
    "remove_assigned (variables cw) (dict_keys asg) = Inr rest" and "rest \<noteq> []"
    by (auto simp: assignment_complete_def split: sum.splits if_splits)
  with remove_assigned_rest obtain v where "v \<in> set (variables cw)" "v \<notin> set (dict_keys asg)"
    by (metis Diff_iff last_in_set)
  with assms(1) show ?thesis
    by (rule select_unassigned_variable_returns)
qed

end
